theory Spec2Isabelle
  imports Main "HOL-Library.Product_Lexorder" "HOL-Library.List_Lexorder"
begin

section \<open>Data model\<close>

text \<open>
  A coordinate is a Python tuple \<open>(row, col)\<close> of unbounded integers. The maze is a list
  of rows, each row a list of one-character strings (\<open>"#"\<close> or \<open>"-"\<close>); a cell is
  modelled as a \<open>char\<close>. The only exception the three search functions can raise is
  \<open>IndexError\<close>, from \<open>maze[n_row][n_col]\<close>.
\<close>

type_synonym coord = "int \<times> int"
type_synonym path = "coord list"
type_synonym maze = "char list list"

datatype error = IndexError

type_synonym result = "error + (path \<times> int)"

text \<open>
  Python list indexing \<open>xs[i]\<close>: an index in \<open>[0, len)\<close> reads from the front, an index in
  \<open>[-len, 0)\<close> reads from the end, anything else raises \<open>IndexError\<close>.
\<close>

definition py_index :: "'a list \<Rightarrow> int \<Rightarrow> error + 'a" where
  "py_index xs i =
     (if 0 \<le> i \<and> i < int (length xs) then Inr (xs ! nat i)
      else if - int (length xs) \<le> i \<and> i < 0 then Inr (xs ! nat (int (length xs) + i))
      else Inl IndexError)"

text \<open>The expression \<open>maze[n_row][n_col]\<close>: the row is read first, then the column.\<close>

definition cell :: "maze \<Rightarrow> coord \<Rightarrow> error + char" where
  "cell maze p =
     (case py_index maze (fst p) of
        Inl e \<Rightarrow> Inl e
      | Inr row \<Rightarrow> py_index row (snd p))"

section \<open>The while loop\<close>

text \<open>
  One pass through the body of \<open>while frontier:\<close> either leaves the function (a
  \<open>return\<close> or a raised exception) or goes on with a new state. A loop that never leaves
  has the value \<open>None\<close>.
\<close>

datatype ('s, 'r) step = Continue 's | Stop 'r

partial_function (option) run_loop :: "('s \<Rightarrow> ('s, 'r) step) \<Rightarrow> 's \<Rightarrow> 'r option" where
  "run_loop body s = (case body s of Continue s' \<Rightarrow> run_loop body s' | Stop r \<Rightarrow> Some r)"

section \<open>Depth-first search (dfs.py)\<close>

type_synonym dfs_state = "(coord \<times> path) list \<times> coord set \<times> int"

fun dfs_neighbors :: "coord \<Rightarrow> coord list" where
  "dfs_neighbors (row, col) = [(row + 1, col), (row - 1, col), (row, col + 1), (row, col - 1)]"

text \<open>
  The \<open>for neighbor in neighbors\<close> loop: each neighbour is read from the maze with no test
  of the indices before; an open one is appended to the stack. An \<open>IndexError\<close> leaves
  the loop and the function.
\<close>

fun dfs_for :: "maze \<Rightarrow> path \<Rightarrow> coord list \<Rightarrow> (coord \<times> path) list \<Rightarrow> error + (coord \<times> path) list" where
  "dfs_for maze path [] stack = Inr stack"
| "dfs_for maze path (neighbor # rest) stack =
     (case cell maze neighbor of
        Inl e \<Rightarrow> Inl e
      | Inr c \<Rightarrow>
          dfs_for maze path rest
            (if c = CHR ''-'' then stack @ [(neighbor, path @ [neighbor])] else stack))"

text \<open>
  The body of \<open>while stack:\<close>. \<open>stack.pop()\<close> takes the last element of the list. An empty
  stack ends the loop and the function returns \<open>[], node_count\<close>.
\<close>

definition dfs_body :: "maze \<Rightarrow> coord \<Rightarrow> dfs_state \<Rightarrow> (dfs_state, result) step" where
  "dfs_body maze end st =
     (case st of (stack, visited, node_count) \<Rightarrow>
        if stack = [] then Stop (Inr ([], node_count))
        else
          (case last stack of (node, path) \<Rightarrow>
             if node = end then Stop (Inr (path, node_count))
             else if node \<notin> visited then
               (case dfs_for maze path (dfs_neighbors node) (butlast stack) of
                  Inl e \<Rightarrow> Stop (Inl e)
                | Inr stack' \<Rightarrow> Continue (stack', insert node visited, node_count + 1))
             else Continue (butlast stack, visited, node_count)))"

definition dfs_algorithm :: "maze \<Rightarrow> coord \<Rightarrow> coord \<Rightarrow> result option" where
  "dfs_algorithm maze start end = run_loop (dfs_body maze end) ([(start, [start])], {}, 0)"

section \<open>Breadth-first search (bfs.py)\<close>

type_synonym bfs_state = "(coord \<times> path) list \<times> coord set \<times> int"

fun bfs_neighbors :: "coord \<Rightarrow> coord list" where
  "bfs_neighbors (row, col) = [(row + 1, col), (row - 1, col), (row, col + 1), (row, col - 1)]"

text \<open>
  In \<open>maze[n_row][n_col] == "-" and neighbor not in visited\<close> the maze is read first, so
  an index out of range raises whether or not the neighbour was visited. The visited set
  at this point already holds the node being expanded.
\<close>

fun bfs_for :: "maze \<Rightarrow> coord set \<Rightarrow> path \<Rightarrow> coord list \<Rightarrow> (coord \<times> path) list \<Rightarrow> error + (coord \<times> path) list" where
  "bfs_for maze visited path [] queue = Inr queue"
| "bfs_for maze visited path (neighbor # rest) queue =
     (case cell maze neighbor of
        Inl e \<Rightarrow> Inl e
      | Inr c \<Rightarrow>
          bfs_for maze visited path rest
            (if c = CHR ''-'' \<and> neighbor \<notin> visited then queue @ [(neighbor, path @ [neighbor])]
             else queue))"

text \<open>The body of \<open>while queue:\<close>. \<open>queue.pop(0)\<close> takes the first element of the list.\<close>

definition bfs_body :: "maze \<Rightarrow> coord \<Rightarrow> bfs_state \<Rightarrow> (bfs_state, result) step" where
  "bfs_body maze end st =
     (case st of (queue, visited, node_count) \<Rightarrow>
        if queue = [] then Stop (Inr ([], node_count))
        else
          (case hd queue of (node, path) \<Rightarrow>
             if node = end then Stop (Inr (path, node_count))
             else if node \<notin> visited then
               (case bfs_for maze (insert node visited) path (bfs_neighbors node) (tl queue) of
                  Inl e \<Rightarrow> Stop (Inl e)
                | Inr queue' \<Rightarrow> Continue (queue', insert node visited, node_count + 1))
             else Continue (tl queue, visited, node_count)))"

definition bfs_algorithm :: "maze \<Rightarrow> coord \<Rightarrow> coord \<Rightarrow> result option" where
  "bfs_algorithm maze start end = run_loop (bfs_body maze end) ([(start, [start])], {}, 0)"

section \<open>A* search (astar.py)\<close>

text \<open>
  A heap entry is the tuple \<open>(priority, cost, node, path)\<close>. Python compares tuples and
  lists lexicographically, which is the order of \<open>Product_Lexorder\<close> and
  \<open>List_Lexorder\<close>; on these entries it is a total order, so the smallest entry of a heap
  is one definite value.

  \<open>heapq\<close> is Python's standard library. Its contract is all that the search uses:
  \<open>heappush\<close> adds an item, \<open>heappop\<close> removes and returns the smallest item. The heap
  is modelled as the list of its items, in the order they were pushed.
\<close>

type_synonym entry = "int \<times> int \<times> coord \<times> path"
type_synonym a_star_state = "entry list \<times> coord set \<times> int"

definition heappush :: "'a list \<Rightarrow> 'a \<Rightarrow> 'a list" where
  "heappush heap item = heap @ [item]"

fun smallest :: "'a::linorder list \<Rightarrow> 'a" where
  "smallest (x # xs) = fold min xs x"

definition heappop :: "'a::linorder list \<Rightarrow> 'a \<times> 'a list" where
  "heappop heap = (smallest heap, remove1 (smallest heap) heap)"

definition heuristic :: "coord \<Rightarrow> coord \<Rightarrow> int" where
  "heuristic end node = \<bar>fst node - fst end\<bar> + \<bar>snd node - snd end\<bar>"

fun a_star_neighbors :: "coord \<Rightarrow> coord list" where
  "a_star_neighbors (row, col) = [(row - 1, col), (row + 1, col), (row, col - 1), (row, col + 1)]"

fun a_star_for :: "maze \<Rightarrow> coord \<Rightarrow> int \<Rightarrow> path \<Rightarrow> coord list \<Rightarrow> entry list \<Rightarrow> error + entry list" where
  "a_star_for maze end cost path [] heap = Inr heap"
| "a_star_for maze end cost path (neighbor # rest) heap =
     (case cell maze neighbor of
        Inl e \<Rightarrow> Inl e
      | Inr c \<Rightarrow>
          a_star_for maze end cost path rest
            (if c = CHR ''-''
             then heappush heap (cost + 1 + heuristic end neighbor, cost + 1, neighbor, path @ [neighbor])
             else heap))"

definition a_star_body :: "maze \<Rightarrow> coord \<Rightarrow> a_star_state \<Rightarrow> (a_star_state, result) step" where
  "a_star_body maze end st =
     (case st of (heap, visited, node_count) \<Rightarrow>
        if heap = [] then Stop (Inr ([], node_count))
        else
          (case heappop heap of ((priority, cost, node, path), heap') \<Rightarrow>
             if node = end then Stop (Inr (path, node_count))
             else if node \<notin> visited then
               (case a_star_for maze end cost path (a_star_neighbors node) heap' of
                  Inl e \<Rightarrow> Stop (Inl e)
                | Inr heap'' \<Rightarrow> Continue (heap'', insert node visited, node_count + 1))
             else Continue (heap', visited, node_count)))"

definition a_star_algorithm :: "maze \<Rightarrow> coord \<Rightarrow> coord \<Rightarrow> result option" where
  "a_star_algorithm maze start end =
     run_loop (a_star_body maze end) ([(heuristic end start, 0, start, [start])], {}, 0)"

section \<open>Paths, open cells and reachability\<close>

text \<open>
  The test the code makes on a neighbour, \<open>maze[n_row][n_col] == "-"\<close>, when it raises
  nothing and holds.
\<close>

definition is_move :: "maze \<Rightarrow> coord \<Rightarrow> bool" where
  "is_move maze p \<longleftrightarrow> cell maze p = Inr CHR ''-''"

text \<open>Two coordinates that differ by exactly one unit in exactly one axis.\<close>

definition adjacent :: "coord \<Rightarrow> coord \<Rightarrow> bool" where
  "adjacent a b \<longleftrightarrow>
     (fst a = fst b \<and> \<bar>snd a - snd b\<bar> = 1) \<or> (snd a = snd b \<and> \<bar>fst a - fst b\<bar> = 1)"

text \<open>
  A walk is what the search can build: a non-empty list of coordinates in which every
  coordinate after the first is adjacent to the one before and passes the code's test.
  The first coordinate is not tested, as the code never tests \<open>start\<close>.
\<close>

fun walk :: "maze \<Rightarrow> path \<Rightarrow> bool" where
  "walk maze [] = False"
| "walk maze [a] = True"
| "walk maze (a # b # rest) = (adjacent a b \<and> is_move maze b \<and> walk maze (b # rest))"

definition walk_reachable :: "maze \<Rightarrow> coord \<Rightarrow> coord \<Rightarrow> bool" where
  "walk_reachable maze start end \<longleftrightarrow> (\<exists>w. walk maze w \<and> hd w = start \<and> last w = end)"

text \<open>
  The specification's notions. A coordinate of the grid has a non-negative row and column
  inside the grid; an Open cell is a coordinate of the grid marked \<open>-\<close>; a path through
  Open cells is a non-empty list of Open cells, consecutive ones adjacent.
\<close>

definition in_grid :: "maze \<Rightarrow> coord \<Rightarrow> bool" where
  "in_grid maze p \<longleftrightarrow>
     0 \<le> fst p \<and> fst p < int (length maze) \<and>
     0 \<le> snd p \<and> snd p < int (length (maze ! nat (fst p)))"

definition open_cell :: "maze \<Rightarrow> coord \<Rightarrow> bool" where
  "open_cell maze p \<longleftrightarrow> in_grid maze p \<and> maze ! nat (fst p) ! nat (snd p) = CHR ''-''"

fun grid_path :: "maze \<Rightarrow> path \<Rightarrow> bool" where
  "grid_path maze [] = False"
| "grid_path maze [a] = open_cell maze a"
| "grid_path maze (a # b # rest) = (open_cell maze a \<and> adjacent a b \<and> grid_path maze (b # rest))"

definition grid_reachable :: "maze \<Rightarrow> coord \<Rightarrow> coord \<Rightarrow> bool" where
  "grid_reachable maze start end \<longleftrightarrow> (\<exists>w. grid_path maze w \<and> hd w = start \<and> last w = end)"

definition edge_count :: "path \<Rightarrow> nat" where
  "edge_count p = length p - 1"

text \<open>
  The true shortest-path edge count between two coordinates: the least number of edges of
  a path through Open cells from the one to the other.
\<close>

definition grid_distance :: "maze \<Rightarrow> coord \<Rightarrow> coord \<Rightarrow> nat" where
  "grid_distance maze start end =
     (LEAST k. \<exists>w. grid_path maze w \<and> hd w = start \<and> last w = end \<and> edge_count w = k)"

text \<open>
  The indices Python accepts in \<open>maze[row][col]\<close>: the row index in \<open>[-len(maze), len(maze))\<close>
  and the column index in \<open>[-len, len)\<close> of the row read.
\<close>

definition in_range :: "maze \<Rightarrow> coord \<Rightarrow> bool" where
  "in_range maze p \<longleftrightarrow>
     - int (length maze) \<le> fst p \<and> fst p < int (length maze) \<and>
     (case py_index maze (fst p) of
        Inl e \<Rightarrow> False
      | Inr row \<Rightarrow> - int (length row) \<le> snd p \<and> snd p < int (length row))"

text \<open>
  The order in which the loops make progress: an expansion adds a coordinate that Python can
  index to the visited set, of which there are finitely many; any other pass shortens the
  frontier.
\<close>

definition search_order :: "maze \<Rightarrow> (('a list \<times> coord set \<times> int) \<times> ('a list \<times> coord set \<times> int)) set" where
  "search_order maze =
     inv_image (less_than <*lex*> less_than)
       (\<lambda>(frontier, visited, node_count). (card ({p. in_range maze p} - visited), length frontier))"

text \<open>
  Every entry of the heap carries a walk from start to its node, its cost is the number of
  edges of that walk, and its priority is the cost plus the heuristic of the node.
\<close>

definition entry_ok :: "maze \<Rightarrow> coord \<Rightarrow> coord \<Rightarrow> entry \<Rightarrow> bool" where
  "entry_ok maze start end e \<longleftrightarrow>
     (case e of (priority, cost, v, p) \<Rightarrow>
        walk maze p \<and> hd p = start \<and> last p = v \<and> int (length p) = cost + 1 \<and>
        priority = cost + heuristic end v)"

text \<open>The states at the top of the loop, from a first state on.\<close>

inductive reaches :: "('s \<Rightarrow> ('s, 'r) step) \<Rightarrow> 's \<Rightarrow> 's \<Rightarrow> bool"
  for body :: "'s \<Rightarrow> ('s, 'r) step" and s :: 's where
  reaches_init: "reaches body s s"
| reaches_next: "reaches body s t \<Longrightarrow> body t = Continue u \<Longrightarrow> reaches body s u"

text \<open>
  The coordinates expanded so far, at a state \<open>t\<close> of a run from \<open>init\<close>: those a pass
  before \<open>t\<close> expanded. A pass expands the node it takes from the frontier when that node is
  not \<open>end\<close> and not yet visited (the branch \<open>if node not in visited\<close> of the code).
\<close>

definition expanded_so_far ::
  "('s \<Rightarrow> ('s, 'r) step) \<Rightarrow> ('s \<Rightarrow> coord option) \<Rightarrow> 's \<Rightarrow> 's \<Rightarrow> coord set" where
  "expanded_so_far body expands init t =
     {x. \<exists>s u. reaches body init s \<and> body s = Continue u \<and> reaches body u t \<and> expands s = Some x}"

definition dfs_expands :: "coord \<Rightarrow> dfs_state \<Rightarrow> coord option" where
  "dfs_expands end st =
     (case st of (stack, visited, node_count) \<Rightarrow>
        if stack \<noteq> [] \<and> fst (last stack) \<noteq> end \<and> fst (last stack) \<notin> visited
        then Some (fst (last stack)) else None)"

definition bfs_expands :: "coord \<Rightarrow> bfs_state \<Rightarrow> coord option" where
  "bfs_expands end st =
     (case st of (queue, visited, node_count) \<Rightarrow>
        if queue \<noteq> [] \<and> fst (hd queue) \<noteq> end \<and> fst (hd queue) \<notin> visited
        then Some (fst (hd queue)) else None)"

definition a_star_expands :: "coord \<Rightarrow> a_star_state \<Rightarrow> coord option" where
  "a_star_expands end st =
     (case st of (heap, visited, node_count) \<Rightarrow>
        if heap \<noteq> [] \<and> fst (snd (snd (smallest heap))) \<noteq> end
           \<and> fst (snd (snd (smallest heap))) \<notin> visited
        then Some (fst (snd (snd (smallest heap)))) else None)"

text \<open>
  The queue holds its paths in order of length, and none is more than one coordinate longer
  than the first.
\<close>

definition queue_ordered :: "(coord \<times> path) list \<Rightarrow> bool" where
  "queue_ordered queue \<longleftrightarrow>
     sorted (map (\<lambda>e. length (snd e)) queue) \<and>
     (\<forall>e \<in> set queue. length (snd e) \<le> Suc (length (snd (hd queue))))"

text \<open>
  A set of Open cells that the search cannot leave: every neighbour of a cell of the set,
  other than the end, is within Python's index range, and is in the set when it counts as
  a move. From a start inside such a set no read is out of range and none wraps around to
  a cell outside it. (The end is never expanded, so nothing is asked of its neighbours.)
\<close>

definition closed_region :: "maze \<Rightarrow> coord \<Rightarrow> coord set \<Rightarrow> bool" where
  "closed_region maze end S \<longleftrightarrow>
     (\<forall>v \<in> S. open_cell maze v \<and>
        (v \<noteq> end \<longrightarrow> (\<forall>nb. adjacent v nb \<longrightarrow> in_range maze nb \<and> (is_move maze nb \<longrightarrow> nb \<in> S))))"

section \<open>Facts about the loop\<close>

lemma run_loop_Stop: "body s = Stop r \<Longrightarrow> run_loop body s = Some r"
  by (subst run_loop.simps) simp

lemma run_loop_Continue: "body s = Continue s' \<Longrightarrow> run_loop body s = run_loop body s'"
  by (subst run_loop.simps) simp

lemma reaches_first:
  assumes "reaches body t u" and "body s = Continue t"
  shows "reaches body s u"
  using assms
proof (induction rule: reaches.induct)
  case reaches_init
  then show ?case by (metis reaches.intros)
next
  case (reaches_next t u)
  then show ?case by (metis reaches.intros(2))
qed

lemma run_loop_reaches:
  "run_loop body s = Some r \<Longrightarrow> \<exists>t. reaches body s t \<and> body t = Stop r"
proof (induction rule: run_loop.raw_induct[rotated 1, consumes 1])
  case (1 loop body s r)
  show ?case
  proof (cases "body s")
    case (Continue s')
    with 1(2) have "loop body s' = Some r" by simp
    from 1(1)[OF this] obtain t where "reaches body s' t" "body t = Stop r" by blast
    with Continue show ?thesis by (blast intro: reaches_first)
  next
    case (Stop r')
    with 1 show ?thesis by (auto intro: reaches_init)
  qed
qed

lemma run_loop_terminates:
  assumes "wf R" and "\<And>s s'. body s = Continue s' \<Longrightarrow> (s', s) \<in> R"
  shows "\<exists>r. run_loop body s = Some r"
  using assms(1)
proof (induction s rule: wf_induct_rule)
  case (less s)
  show ?case
  proof (cases "body s")
    case (Continue s')
    with less assms(2) show ?thesis by (simp add: run_loop_Continue)
  next
    case (Stop r)
    then show ?thesis by (simp add: run_loop_Stop)
  qed
qed

section \<open>Reading the maze\<close>

lemma error_is_IndexError [simp]: "(e :: error) = IndexError"
  by (cases e) simp

lemma py_index_error: "py_index xs i = Inl IndexError \<longleftrightarrow> \<not> (- int (length xs) \<le> i \<and> i < int (length xs))"
  by (auto simp: py_index_def)

lemma py_index_in_set: "py_index xs i = Inr x \<Longrightarrow> x \<in> set xs"
  by (auto simp: py_index_def split: if_splits)

lemma py_index_wrap:
  assumes "- int (length xs) \<le> i" and "i < int (length xs)"
  shows "py_index xs i = Inr (xs ! nat (i mod int (length xs)))"
proof (cases "0 \<le> i")
  case True
  with assms show ?thesis by (simp add: py_index_def)
next
  case False
  let ?n = "int (length xs)"
  have "(i + ?n) mod ?n = i + ?n"
    using False assms by (intro mod_pos_pos_trivial) auto
  then have "i mod ?n = ?n + i" by (simp add: add.commute)
  with False assms show ?thesis by (simp add: py_index_def)
qed

lemma cell_error_iff: "cell maze p = Inl IndexError \<longleftrightarrow> \<not> in_range maze p"
proof (cases "py_index maze (fst p)")
  case (Inl e)
  then show ?thesis by (simp add: cell_def in_range_def)
next
  case (Inr row)
  then have "- int (length maze) \<le> fst p \<and> fst p < int (length maze)"
    using py_index_error[of maze "fst p"] by simp
  with Inr show ?thesis by (simp add: cell_def in_range_def py_index_error)
qed

lemma cell_wrap:
  assumes "in_range maze p"
  shows "cell maze p =
           Inr (maze ! nat (fst p mod int (length maze))
                     ! nat (snd p mod int (length (maze ! nat (fst p mod int (length maze))))))"
proof -
  from assms have r: "- int (length maze) \<le> fst p" "fst p < int (length maze)"
    by (simp_all add: in_range_def)
  let ?row = "maze ! nat (fst p mod int (length maze))"
  from r have row: "py_index maze (fst p) = Inr ?row" by (rule py_index_wrap)
  with assms have "- int (length ?row) \<le> snd p" "snd p < int (length ?row)"
    by (simp_all add: in_range_def)
  then have "py_index ?row (snd p) = Inr (?row ! nat (snd p mod int (length ?row)))"
    by (rule py_index_wrap)
  with row show ?thesis by (simp add: cell_def)
qed

lemma cell_cases: "cell maze p = Inl IndexError \<or> (\<exists>c. cell maze p = Inr c)"
  by (cases "cell maze p") simp_all

lemma length_le_concat: "x \<in> set xs \<Longrightarrow> length x \<le> length (concat xs)"
  by (induction xs) auto

lemma in_range_box:
  assumes "in_range maze p"
  shows "p \<in> {- int (length maze) ..< int (length maze)} \<times> {- int (length (concat maze)) ..< int (length (concat maze))}"
proof -
  from assms obtain row where row: "py_index maze (fst p) = Inr row"
    and c: "- int (length row) \<le> snd p" "snd p < int (length row)"
    by (auto simp: in_range_def split: sum.splits)
  from row have "length row \<le> length (concat maze)"
    by (intro length_le_concat py_index_in_set)
  with c assms show ?thesis by (cases p) (auto simp: in_range_def)
qed

lemma finite_in_range: "finite {p. in_range maze p}"
  by (rule finite_subset[OF _ finite_cartesian_product[OF finite_atLeastLessThan_int finite_atLeastLessThan_int]])
     (use in_range_box in blast)

lemma in_range_between:
  assumes "in_range maze (r, c + 1)" and "in_range maze (r, c - 1)"
  shows "in_range maze (r, c)"
  using assms by (auto simp: in_range_def split: sum.splits)

text \<open>The \<open>for\<close> loop of the depth-first search.\<close>

lemma dfs_for_Inr:
  "dfs_for maze path nbs stack = Inr stack' \<longleftrightarrow>
     (\<forall>nb \<in> set nbs. in_range maze nb) \<and>
     stack' = stack @ map (\<lambda>nb. (nb, path @ [nb])) (filter (is_move maze) nbs)"
proof (induction nbs arbitrary: stack)
  case Nil
  then show ?case by auto
next
  case (Cons nb nbs)
  show ?case
  proof (cases "cell maze nb")
    case (Inl e)
    then show ?thesis using cell_error_iff[of maze nb] by simp
  next
    case (Inr c)
    then have "in_range maze nb" using cell_error_iff[of maze nb] by simp
    with Inr show ?thesis by (simp add: Cons.IH is_move_def)
  qed
qed

text \<open>The \<open>for\<close> loops of the breadth-first and the A* search.\<close>

lemma bfs_for_Inr:
  "bfs_for maze visited path nbs queue = Inr queue' \<longleftrightarrow>
     (\<forall>nb \<in> set nbs. in_range maze nb) \<and>
     queue' = queue @ map (\<lambda>nb. (nb, path @ [nb]))
                         (filter (\<lambda>nb. is_move maze nb \<and> nb \<notin> visited) nbs)"
proof (induction nbs arbitrary: queue)
  case Nil
  then show ?case by auto
next
  case (Cons nb nbs)
  show ?case
  proof (cases "cell maze nb")
    case (Inl e)
    then show ?thesis using cell_error_iff[of maze nb] by simp
  next
    case (Inr c)
    then have "in_range maze nb" using cell_error_iff[of maze nb] by simp
    with Inr show ?thesis by (simp add: Cons.IH is_move_def)
  qed
qed

lemma a_star_for_Inr:
  "a_star_for maze end cost path nbs heap = Inr heap' \<longleftrightarrow>
     (\<forall>nb \<in> set nbs. in_range maze nb) \<and>
     heap' = heap @ map (\<lambda>nb. (cost + 1 + heuristic end nb, cost + 1, nb, path @ [nb]))
                       (filter (is_move maze) nbs)"
proof (induction nbs arbitrary: heap)
  case Nil
  then show ?case by auto
next
  case (Cons nb nbs)
  show ?case
  proof (cases "cell maze nb")
    case (Inl e)
    then show ?thesis using cell_error_iff[of maze nb] by simp
  next
    case (Inr c)
    then have "in_range maze nb" using cell_error_iff[of maze nb] by simp
    with Inr show ?thesis by (simp add: Cons.IH is_move_def heappush_def)
  qed
qed

section \<open>The heap\<close>

lemma smallest_Min: "heap \<noteq> [] \<Longrightarrow> smallest heap = Min (set heap)"
proof (cases heap)
  case Nil
  assume "heap \<noteq> []"
  with Nil show ?thesis by simp
next
  case (Cons x xs)
  have "Min (set (x # xs)) = fold min xs x" by (rule Min.set_eq_fold)
  with Cons show ?thesis by simp
qed

lemma smallest_in: "heap \<noteq> [] \<Longrightarrow> smallest heap \<in> set heap"
  by (simp add: smallest_Min)

lemma smallest_le: "x \<in> set heap \<Longrightarrow> smallest heap \<le> x"
  by (cases "heap = []") (simp_all add: smallest_Min)

lemma heappop_length: "heap \<noteq> [] \<Longrightarrow> length (snd (heappop heap)) < length heap"
  by (simp add: heappop_def length_remove1 smallest_in)

section \<open>Progress of the loops\<close>

lemma wf_search_order: "wf (search_order maze)"
  unfolding search_order_def by (intro wf_inv_image wf_lex_prod wf_less_than)

lemma expansion_progress:
  assumes "node \<notin> visited" and "in_range maze node" and "finite {p. in_range maze p}"
  shows "((frontier', insert node visited, n'), (frontier, visited, n)) \<in> search_order maze"
proof -
  let ?B = "{p. in_range maze p}"
  have "?B - insert node visited = (?B - visited) - {node}" by auto
  moreover have "node \<in> ?B - visited" using assms by simp
  moreover have "finite (?B - visited)" using assms(3) by simp
  ultimately have "card (?B - insert node visited) < card (?B - visited)"
    by (metis card_Diff1_less)
  then show ?thesis by (simp add: search_order_def)
qed

lemma skip_progress:
  assumes "length frontier' < length frontier"
  shows "((frontier', visited, n'), (frontier, visited, n)) \<in> search_order maze"
  using assms by (simp add: search_order_def)

lemma dfs_neighbors_in_range:
  assumes "\<forall>nb \<in> set (dfs_neighbors node). in_range maze nb"
  shows "in_range maze node"
  using assms in_range_between[of maze "fst node" "snd node"] by (cases node) simp

lemma dfs_body_progress:
  assumes "dfs_body maze end st = Continue st'"
  shows "(st', st) \<in> search_order maze"
proof -
  obtain stack visited n where st: "st = (stack, visited, n)" by (cases st)
  obtain node path where top: "last stack = (node, path)" by (cases "last stack")
  show ?thesis
  proof (cases "node \<in> visited")
    case True
    with assms st top show ?thesis
      by (auto simp: dfs_body_def split: if_splits intro!: skip_progress)
  next
    case False
    with assms st top obtain stack' where
      "dfs_for maze path (dfs_neighbors node) (butlast stack) = Inr stack'"
      "st' = (stack', insert node visited, n + 1)"
      by (auto simp: dfs_body_def split: if_splits sum.splits)
    then show ?thesis
      using False st finite_in_range dfs_neighbors_in_range[of node maze]
      by (auto simp: dfs_for_Inr intro!: expansion_progress)
  qed
qed

lemma dfs_terminates: "\<exists>r. dfs_algorithm maze start end = Some r"
  unfolding dfs_algorithm_def
  by (rule run_loop_terminates[OF wf_search_order dfs_body_progress])

lemma bfs_neighbors_in_range:
  assumes "\<forall>nb \<in> set (bfs_neighbors node). in_range maze nb"
  shows "in_range maze node"
  using assms in_range_between[of maze "fst node" "snd node"] by (cases node) simp

lemma a_star_neighbors_in_range:
  assumes "\<forall>nb \<in> set (a_star_neighbors node). in_range maze nb"
  shows "in_range maze node"
  using assms in_range_between[of maze "fst node" "snd node"] by (cases node) simp

lemma bfs_body_progress:
  assumes "bfs_body maze end st = Continue st'"
  shows "(st', st) \<in> search_order maze"
proof -
  obtain queue visited n where st: "st = (queue, visited, n)" by (cases st)
  obtain node path where top: "hd queue = (node, path)" by (cases "hd queue")
  show ?thesis
  proof (cases "node \<in> visited")
    case True
    with assms st top show ?thesis
      by (auto simp: bfs_body_def split: if_splits intro!: skip_progress)
  next
    case False
    with assms st top obtain queue' where
      "bfs_for maze (insert node visited) path (bfs_neighbors node) (tl queue) = Inr queue'"
      "st' = (queue', insert node visited, n + 1)"
      by (auto simp: bfs_body_def split: if_splits sum.splits)
    then show ?thesis
      using False st finite_in_range bfs_neighbors_in_range[of node maze]
      by (auto simp: bfs_for_Inr intro!: expansion_progress)
  qed
qed

lemma a_star_body_progress:
  assumes "a_star_body maze end st = Continue st'"
  shows "(st', st) \<in> search_order maze"
proof -
  obtain heap visited n where st: "st = (heap, visited, n)" by (cases st)
  obtain priority cost node path heap' where top: "heappop heap = ((priority, cost, node, path), heap')"
    by (metis prod.exhaust)
  show ?thesis
  proof (cases "node \<in> visited")
    case True
    with assms st top have "heap \<noteq> []" "st' = (heap', visited, n)"
      by (auto simp: a_star_body_def split: if_splits)
    with top heappop_length[of heap] st show ?thesis
      by (auto intro!: skip_progress)
  next
    case False
    with assms st top obtain heap'' where
      "a_star_for maze end cost path (a_star_neighbors node) heap' = Inr heap''"
      "st' = (heap'', insert node visited, n + 1)"
      by (auto simp: a_star_body_def split: if_splits sum.splits)
    then show ?thesis
      using False st finite_in_range a_star_neighbors_in_range[of node maze]
      by (auto simp: a_star_for_Inr intro!: expansion_progress)
  qed
qed

lemma bfs_terminates: "\<exists>r. bfs_algorithm maze start end = Some r"
  unfolding bfs_algorithm_def
  by (rule run_loop_terminates[OF wf_search_order bfs_body_progress])

lemma a_star_terminates: "\<exists>r. a_star_algorithm maze start end = Some r"
  unfolding a_star_algorithm_def
  by (rule run_loop_terminates[OF wf_search_order a_star_body_progress])

section \<open>The branches of the loop bodies\<close>

lemma dfs_body_cases [case_names empty found skip raise expand]:
  obtains
    "stack = []" "dfs_body maze end (stack, visited, n) = Stop (Inr ([], n))"
  | path where "stack \<noteq> []" "last stack = (end, path)"
      "dfs_body maze end (stack, visited, n) = Stop (Inr (path, n))"
  | node path where "stack \<noteq> []" "last stack = (node, path)" "node \<noteq> end" "node \<in> visited"
      "dfs_body maze end (stack, visited, n) = Continue (butlast stack, visited, n)"
  | node path where "stack \<noteq> []" "last stack = (node, path)" "node \<noteq> end" "node \<notin> visited"
      "\<exists>nb \<in> set (dfs_neighbors node). \<not> in_range maze nb"
      "dfs_body maze end (stack, visited, n) = Stop (Inl IndexError)"
  | node path where "stack \<noteq> []" "last stack = (node, path)" "node \<noteq> end" "node \<notin> visited"
      "\<forall>nb \<in> set (dfs_neighbors node). in_range maze nb"
      "dfs_body maze end (stack, visited, n) =
         Continue (butlast stack @ map (\<lambda>nb. (nb, path @ [nb])) (filter (is_move maze) (dfs_neighbors node)),
                   insert node visited, n + 1)"
proof (cases "stack = []")
  case True
  then show ?thesis using that(1) by (simp add: dfs_body_def)
next
  case ne: False
  obtain node path where top: "last stack = (node, path)" by (cases "last stack")
  show ?thesis
  proof (cases "node = end")
    case True
    with ne top show ?thesis using that(2) by (simp add: dfs_body_def)
  next
    case neq: False
    show ?thesis
    proof (cases "node \<in> visited")
      case True
      with ne top neq show ?thesis using that(3) by (simp add: dfs_body_def)
    next
      case nv: False
      show ?thesis
      proof (cases "dfs_for maze path (dfs_neighbors node) (butlast stack)")
        case (Inl e)
        then have "\<not> (\<forall>nb \<in> set (dfs_neighbors node). in_range maze nb)"
          using dfs_for_Inr[of maze path "dfs_neighbors node" "butlast stack"] by auto
        with Inl ne top neq nv show ?thesis using that(4)[of node path] by (simp add: dfs_body_def)
      next
        case (Inr stack')
        then have "\<forall>nb \<in> set (dfs_neighbors node). in_range maze nb"
          and "stack' = butlast stack @ map (\<lambda>nb. (nb, path @ [nb])) (filter (is_move maze) (dfs_neighbors node))"
          using dfs_for_Inr[of maze path "dfs_neighbors node" "butlast stack" stack'] by auto
        with Inr ne top neq nv show ?thesis using that(5)[of node path] by (simp add: dfs_body_def)
      qed
    qed
  qed
qed

lemma bfs_body_cases [case_names empty found skip raise expand]:
  obtains
    "queue = []" "bfs_body maze end (queue, visited, n) = Stop (Inr ([], n))"
  | path where "queue \<noteq> []" "hd queue = (end, path)"
      "bfs_body maze end (queue, visited, n) = Stop (Inr (path, n))"
  | node path where "queue \<noteq> []" "hd queue = (node, path)" "node \<noteq> end" "node \<in> visited"
      "bfs_body maze end (queue, visited, n) = Continue (tl queue, visited, n)"
  | node path where "queue \<noteq> []" "hd queue = (node, path)" "node \<noteq> end" "node \<notin> visited"
      "\<exists>nb \<in> set (bfs_neighbors node). \<not> in_range maze nb"
      "bfs_body maze end (queue, visited, n) = Stop (Inl IndexError)"
  | node path where "queue \<noteq> []" "hd queue = (node, path)" "node \<noteq> end" "node \<notin> visited"
      "\<forall>nb \<in> set (bfs_neighbors node). in_range maze nb"
      "bfs_body maze end (queue, visited, n) =
         Continue (tl queue @ map (\<lambda>nb. (nb, path @ [nb])) (filter (\<lambda>nb. is_move maze nb \<and> nb \<notin> insert node visited) (bfs_neighbors node)),
                   insert node visited, n + 1)"
proof (cases "queue = []")
  case True
  then show ?thesis using that(1) by (simp add: bfs_body_def)
next
  case ne: False
  obtain node path where top: "hd queue = (node, path)" by (cases "hd queue")
  show ?thesis
  proof (cases "node = end")
    case True
    with ne top show ?thesis using that(2) by (simp add: bfs_body_def)
  next
    case neq: False
    show ?thesis
    proof (cases "node \<in> visited")
      case True
      with ne top neq show ?thesis using that(3) by (simp add: bfs_body_def)
    next
      case nv: False
      show ?thesis
      proof (cases "bfs_for maze (insert node visited) path (bfs_neighbors node) (tl queue)")
        case (Inl e)
        then have "\<not> (\<forall>nb \<in> set (bfs_neighbors node). in_range maze nb)"
          using bfs_for_Inr[of maze "insert node visited" path "bfs_neighbors node" "tl queue"] by auto
        with Inl ne top neq nv show ?thesis using that(4)[of node path] by (simp add: bfs_body_def)
      next
        case (Inr queue')
        then have "\<forall>nb \<in> set (bfs_neighbors node). in_range maze nb"
          and "queue' = tl queue @ map (\<lambda>nb. (nb, path @ [nb])) (filter (\<lambda>nb. is_move maze nb \<and> nb \<notin> insert node visited) (bfs_neighbors node))"
          using bfs_for_Inr[of maze "insert node visited" path "bfs_neighbors node" "tl queue" queue'] by auto
        with Inr ne top neq nv show ?thesis using that(5)[of node path] by (simp add: bfs_body_def)
      qed
    qed
  qed
qed

lemma a_star_body_cases [case_names empty found skip raise expand]:
  obtains
    "heap = []" "a_star_body maze end (heap, visited, n) = Stop (Inr ([], n))"
  | priority cost path where "heap \<noteq> []" "smallest heap = (priority, cost, end, path)"
      "a_star_body maze end (heap, visited, n) = Stop (Inr (path, n))"
  | priority cost node path where "heap \<noteq> []" "smallest heap = (priority, cost, node, path)"
      "node \<noteq> end" "node \<in> visited"
      "a_star_body maze end (heap, visited, n) = Continue (remove1 (smallest heap) heap, visited, n)"
  | priority cost node path where "heap \<noteq> []" "smallest heap = (priority, cost, node, path)"
      "node \<noteq> end" "node \<notin> visited"
      "\<exists>nb \<in> set (a_star_neighbors node). \<not> in_range maze nb"
      "a_star_body maze end (heap, visited, n) = Stop (Inl IndexError)"
  | priority cost node path where "heap \<noteq> []" "smallest heap = (priority, cost, node, path)"
      "node \<noteq> end" "node \<notin> visited"
      "\<forall>nb \<in> set (a_star_neighbors node). in_range maze nb"
      "a_star_body maze end (heap, visited, n) =
         Continue (remove1 (smallest heap) heap @
                     map (\<lambda>nb. (cost + 1 + heuristic end nb, cost + 1, nb, path @ [nb]))
                       (filter (is_move maze) (a_star_neighbors node)),
                   insert node visited, n + 1)"
proof (cases "heap = []")
  case True
  then show ?thesis using that(1) by (simp add: a_star_body_def)
next
  case ne: False
  obtain priority cost node path where top: "smallest heap = (priority, cost, node, path)"
    by (metis prod.exhaust)
  let ?rest = "remove1 (smallest heap) heap"
  show ?thesis
  proof (cases "node = end")
    case True
    with ne top show ?thesis using that(2) by (simp add: a_star_body_def heappop_def)
  next
    case neq: False
    show ?thesis
    proof (cases "node \<in> visited")
      case True
      with ne top neq show ?thesis using that(3) by (simp add: a_star_body_def heappop_def)
    next
      case nv: False
      show ?thesis
      proof (cases "a_star_for maze end cost path (a_star_neighbors node) ?rest")
        case (Inl e)
        then have "\<not> (\<forall>nb \<in> set (a_star_neighbors node). in_range maze nb)"
          using a_star_for_Inr[of maze "end" cost path "a_star_neighbors node" ?rest] by auto
        with Inl ne top neq nv show ?thesis
          using that(4)[of priority cost node path] by (simp add: a_star_body_def heappop_def)
      next
        case (Inr heap')
        then have "\<forall>nb \<in> set (a_star_neighbors node). in_range maze nb"
          and "heap' = ?rest @ map (\<lambda>nb. (cost + 1 + heuristic end nb, cost + 1, nb, path @ [nb]))
                                 (filter (is_move maze) (a_star_neighbors node))"
          using a_star_for_Inr[of maze "end" cost path "a_star_neighbors node" ?rest heap'] by auto
        with Inr ne top neq nv show ?thesis
          using that(5)[of priority cost node path] by (simp add: a_star_body_def heappop_def)
      qed
    qed
  qed
qed

section \<open>The paths carried by the frontier\<close>

lemma walk_not_Nil: "walk maze p \<Longrightarrow> p \<noteq> []"
  by (cases p) simp_all

lemma walk_snoc:
  "walk maze p \<Longrightarrow> adjacent (last p) x \<Longrightarrow> is_move maze x \<Longrightarrow> walk maze (p @ [x])"
  by (induction maze p rule: walk.induct) simp_all

lemma adjacent_dfs_neighbors: "nb \<in> set (dfs_neighbors node) \<longleftrightarrow> adjacent node nb"
  by (cases node; cases nb) (auto simp: adjacent_def)

lemma adjacent_bfs_neighbors: "nb \<in> set (bfs_neighbors node) \<longleftrightarrow> adjacent node nb"
  by (cases node; cases nb) (auto simp: adjacent_def)

lemma adjacent_a_star_neighbors: "nb \<in> set (a_star_neighbors node) \<longleftrightarrow> adjacent node nb"
  by (cases node; cases nb) (auto simp: adjacent_def)

text \<open>A pass that takes a node which is not the end and not yet visited.\<close>

lemma dfs_body_fresh:
  assumes "node \<noteq> end" and "node \<notin> visited"
  shows "dfs_body maze end (stack @ [(node, path)], visited, n) =
           (if \<forall>nb. adjacent node nb \<longrightarrow> in_range maze nb
            then Continue (stack @ map (\<lambda>nb. (nb, path @ [nb])) (filter (is_move maze) (dfs_neighbors node)),
                           insert node visited, n + 1)
            else Stop (Inl IndexError))"
proof -
  have eq: "(\<forall>nb. adjacent node nb \<longrightarrow> in_range maze nb) \<longleftrightarrow>
            (\<forall>nb \<in> set (dfs_neighbors node). in_range maze nb)"
    using adjacent_dfs_neighbors by blast
  show ?thesis
    unfolding eq using assms
    by (cases rule: dfs_body_cases[of "stack @ [(node, path)]" maze "end" visited n]) simp_all
qed

lemma bfs_body_fresh:
  assumes "node \<noteq> end" and "node \<notin> visited"
  shows "bfs_body maze end ((node, path) # queue, visited, n) =
           (if \<forall>nb. adjacent node nb \<longrightarrow> in_range maze nb
            then Continue (queue @ map (\<lambda>nb. (nb, path @ [nb]))
                                     (filter (\<lambda>nb. is_move maze nb \<and> nb \<notin> insert node visited)
                                        (bfs_neighbors node)),
                           insert node visited, n + 1)
            else Stop (Inl IndexError))"
proof -
  have eq: "(\<forall>nb. adjacent node nb \<longrightarrow> in_range maze nb) \<longleftrightarrow>
            (\<forall>nb \<in> set (bfs_neighbors node). in_range maze nb)"
    using adjacent_bfs_neighbors by blast
  show ?thesis
    unfolding eq using assms
    by (cases rule: bfs_body_cases[of "(node, path) # queue" maze "end" visited n]) simp_all
qed

lemma a_star_body_fresh:
  assumes "node \<noteq> end" and "node \<notin> visited"
    and "heap \<noteq> []" and "smallest heap = (priority, cost, node, path)"
  shows "a_star_body maze end (heap, visited, n) =
           (if \<forall>nb. adjacent node nb \<longrightarrow> in_range maze nb
            then Continue (remove1 (smallest heap) heap @
                             map (\<lambda>nb. (cost + 1 + heuristic end nb, cost + 1, nb, path @ [nb]))
                               (filter (is_move maze) (a_star_neighbors node)),
                           insert node visited, n + 1)
            else Stop (Inl IndexError))"
proof -
  have eq: "(\<forall>nb. adjacent node nb \<longrightarrow> in_range maze nb) \<longleftrightarrow>
            (\<forall>nb \<in> set (a_star_neighbors node). in_range maze nb)"
    using adjacent_a_star_neighbors by blast
  show ?thesis
    unfolding eq using assms
    by (cases rule: a_star_body_cases[of heap maze "end" visited n]) simp_all
qed

text \<open>Every entry of the stack carries a walk from start to its node.\<close>

lemma dfs_step_paths:
  assumes step: "dfs_body maze end (stack, visited, n) = Continue (stack', visited', n')"
    and inv: "\<forall>(v, p) \<in> set stack. walk maze p \<and> hd p = start \<and> last p = v"
  shows "\<forall>(v, p) \<in> set stack'. walk maze p \<and> hd p = start \<and> last p = v"
proof (cases rule: dfs_body_cases[of stack maze "end" visited n])
  case empty
  with step show ?thesis by simp
next
  case (found path)
  with step show ?thesis by simp
next
  case (skip node path)
  with step have "stack' = butlast stack" by simp
  with inv show ?thesis by (auto dest: in_set_butlastD)
next
  case (raise node path)
  with step show ?thesis by simp
next
  case (expand node path)
  from expand(1,2) have "(node, path) \<in> set stack" by (metis last_in_set)
  with inv have p: "walk maze path" "hd path = start" "last path = node" by auto
  have new: "walk maze (path @ [nb]) \<and> hd (path @ [nb]) = start \<and> last (path @ [nb]) = nb"
    if "nb \<in> set (dfs_neighbors node)" "is_move maze nb" for nb
    using that p walk_snoc[of maze path nb] walk_not_Nil[of maze path]
    by (simp add: adjacent_dfs_neighbors)
  from expand step have
    "stack' = butlast stack @ map (\<lambda>nb. (nb, path @ [nb])) (filter (is_move maze) (dfs_neighbors node))"
    by simp
  with inv new show ?thesis by (auto dest: in_set_butlastD)
qed

lemma dfs_reaches_paths:
  assumes "reaches (dfs_body maze end) ([(start, [start])], {}, 0) (stack, visited, n)"
  shows "\<forall>(v, p) \<in> set stack. walk maze p \<and> hd p = start \<and> last p = v"
  using assms
proof (induction "(stack, visited, n)" arbitrary: stack visited n rule: reaches.induct)
  case reaches_init
  then show ?case by simp
next
  case (reaches_next t)
  obtain stack0 visited0 n0 where t: "t = (stack0, visited0, n0)" by (cases t)
  with reaches_next show ?case using dfs_step_paths[of maze "end" stack0 visited0 n0 stack visited n start]
    by blast
qed

lemma in_tl: "x \<in> set (tl xs) \<Longrightarrow> x \<in> set xs"
  by (cases xs) simp_all

lemma bfs_step_paths:
  assumes step: "bfs_body maze end (queue, visited, n) = Continue (queue', visited', n')"
    and inv: "\<forall>(v, p) \<in> set queue. walk maze p \<and> hd p = start \<and> last p = v"
  shows "\<forall>(v, p) \<in> set queue'. walk maze p \<and> hd p = start \<and> last p = v"
proof (cases rule: bfs_body_cases[of queue maze "end" visited n])
  case empty
  with step show ?thesis by simp
next
  case (found path)
  with step show ?thesis by simp
next
  case (skip node path)
  with step have "queue' = tl queue" by simp
  with inv show ?thesis by (auto dest: in_tl)
next
  case (raise node path)
  with step show ?thesis by simp
next
  case (expand node path)
  from expand(1,2) have "(node, path) \<in> set queue" by (metis hd_in_set)
  with inv have p: "walk maze path" "hd path = start" "last path = node" by auto
  have new: "walk maze (path @ [nb]) \<and> hd (path @ [nb]) = start \<and> last (path @ [nb]) = nb"
    if "nb \<in> set (bfs_neighbors node)" "is_move maze nb" for nb
    using that p walk_snoc[of maze path nb] walk_not_Nil[of maze path]
    by (simp add: adjacent_bfs_neighbors)
  from expand step have
    "queue' = tl queue @ map (\<lambda>nb. (nb, path @ [nb]))
        (filter (\<lambda>nb. is_move maze nb \<and> nb \<notin> insert node visited) (bfs_neighbors node))"
    by simp
  with inv new show ?thesis by (auto dest: in_tl)
qed

lemma bfs_reaches_paths:
  assumes "reaches (bfs_body maze end) ([(start, [start])], {}, 0) (queue, visited, n)"
  shows "\<forall>(v, p) \<in> set queue. walk maze p \<and> hd p = start \<and> last p = v"
  using assms
proof (induction "(queue, visited, n)" arbitrary: queue visited n rule: reaches.induct)
  case reaches_init
  then show ?case by simp
next
  case (reaches_next t)
  obtain queue0 visited0 n0 where t: "t = (queue0, visited0, n0)" by (cases t)
  with reaches_next show ?case using bfs_step_paths[of maze "end" queue0 visited0 n0 queue visited n start]
    by blast
qed

lemma a_star_step_paths:
  assumes step: "a_star_body maze end (heap, visited, n) = Continue (heap', visited', n')"
    and inv: "\<forall>e \<in> set heap. entry_ok maze start end e"
  shows "\<forall>e \<in> set heap'. entry_ok maze start end e"
proof (cases rule: a_star_body_cases[of heap maze "end" visited n])
  case empty
  with step show ?thesis by simp
next
  case (found priority cost path)
  with step show ?thesis by simp
next
  case (skip priority cost node path)
  with step have "heap' = remove1 (smallest heap) heap" by simp
  with inv show ?thesis by (auto dest: notin_set_remove1)
next
  case (raise priority cost node path)
  with step show ?thesis by simp
next
  case (expand priority cost node path)
  from expand(1,2) have "(priority, cost, node, path) \<in> set heap" by (metis smallest_in)
  with inv have "entry_ok maze start end (priority, cost, node, path)" by blast
  then have p: "walk maze path" "hd path = start" "last path = node" "int (length path) = cost + 1"
    by (auto simp: entry_ok_def)
  have new: "entry_ok maze start end (cost + 1 + heuristic end nb, cost + 1, nb, path @ [nb])"
    if "nb \<in> set (a_star_neighbors node)" "is_move maze nb" for nb
    using that p walk_snoc[of maze path nb] walk_not_Nil[of maze path]
    by (simp add: adjacent_a_star_neighbors entry_ok_def)
  from expand step have
    "heap' = remove1 (smallest heap) heap @
       map (\<lambda>nb. (cost + 1 + heuristic end nb, cost + 1, nb, path @ [nb]))
         (filter (is_move maze) (a_star_neighbors node))"
    by simp
  with inv new show ?thesis by (auto dest: notin_set_remove1)
qed

lemma a_star_reaches_paths:
  assumes "reaches (a_star_body maze end) ([(heuristic end start, 0, start, [start])], {}, 0) (heap, visited, n)"
  shows "\<forall>e \<in> set heap. entry_ok maze start end e"
  using assms
proof (induction "(heap, visited, n)" arbitrary: heap visited n rule: reaches.induct)
  case reaches_init
  then show ?case by (simp add: entry_ok_def)
next
  case (reaches_next t)
  obtain heap0 visited0 n0 where t: "t = (heap0, visited0, n0)" by (cases t)
  with reaches_next show ?case using a_star_step_paths[of maze "end" heap0 visited0 n0 heap visited n start]
    by blast
qed

text \<open>The count is the number of visited coordinates.\<close>

lemma dfs_step_count:
  assumes "dfs_body maze end (stack, visited, n) = Continue (stack', visited', n')"
    and "finite visited \<and> n = int (card visited)"
  shows "finite visited' \<and> n' = int (card visited')"
  using assms by (cases rule: dfs_body_cases[of stack maze "end" visited n]) auto

lemma bfs_step_count:
  assumes "bfs_body maze end (queue, visited, n) = Continue (queue', visited', n')"
    and "finite visited \<and> n = int (card visited)"
  shows "finite visited' \<and> n' = int (card visited')"
  using assms by (cases rule: bfs_body_cases[of queue maze "end" visited n]) auto

lemma a_star_step_count:
  assumes "a_star_body maze end (heap, visited, n) = Continue (heap', visited', n')"
    and "finite visited \<and> n = int (card visited)"
  shows "finite visited' \<and> n' = int (card visited')"
  using assms by (cases rule: a_star_body_cases[of heap maze "end" visited n]) auto

lemma reaches_count:
  assumes "reaches body (frontier0, {}, 0) (frontier, visited, n)"
    and "\<And>f v k f' v' k'. body (f, v, k) = Continue (f', v', k') \<Longrightarrow>
           finite v \<and> k = int (card v) \<Longrightarrow> finite v' \<and> k' = int (card v')"
  shows "finite visited \<and> n = int (card visited)"
  using assms(1)
proof (induction "(frontier, visited, n)" arbitrary: frontier visited n rule: reaches.induct)
  case reaches_init
  then show ?case by simp
next
  case (reaches_next t)
  obtain f0 v0 n0 where t: "t = (f0, v0, n0)" by (cases t)
  with reaches_next show ?case using assms(2)[of f0 v0 n0 frontier visited n] by blast
qed

section \<open>Results of the search functions\<close>

text \<open>How a result comes about.\<close>

lemma dfs_result:
  assumes "dfs_algorithm maze start end = Some (Inr (path, n))"
  obtains (exhausted) visited where
      "reaches (dfs_body maze end) ([(start, [start])], {}, 0) ([], visited, n)" "path = []"
  | (found) stack visited where
      "reaches (dfs_body maze end) ([(start, [start])], {}, 0) (stack, visited, n)"
      "stack \<noteq> []" "last stack = (end, path)"
proof -
  from assms obtain t where t: "reaches (dfs_body maze end) ([(start, [start])], {}, 0) t"
    "dfs_body maze end t = Stop (Inr (path, n))"
    unfolding dfs_algorithm_def by (blast dest: run_loop_reaches)
  obtain stack visited k where st: "t = (stack, visited, k)" by (cases t)
  show thesis
    using t(2)[unfolded st]
  proof (cases rule: dfs_body_cases[of stack maze "end" visited k])
    case empty
    with t st show ?thesis using exhausted by simp
  next
    case (found p)
    with t st show ?thesis using that(2)[of stack visited] by simp
  next
    case (skip node p)
    with t st show ?thesis by simp
  next
    case (raise node p)
    with t st show ?thesis by simp
  next
    case (expand node p)
    with t st show ?thesis by simp
  qed
qed

lemma bfs_result:
  assumes "bfs_algorithm maze start end = Some (Inr (path, n))"
  obtains (exhausted) visited where
      "reaches (bfs_body maze end) ([(start, [start])], {}, 0) ([], visited, n)" "path = []"
  | (found) queue visited where
      "reaches (bfs_body maze end) ([(start, [start])], {}, 0) (queue, visited, n)"
      "queue \<noteq> []" "hd queue = (end, path)"
proof -
  from assms obtain t where t: "reaches (bfs_body maze end) ([(start, [start])], {}, 0) t"
    "bfs_body maze end t = Stop (Inr (path, n))"
    unfolding bfs_algorithm_def by (blast dest: run_loop_reaches)
  obtain queue visited k where st: "t = (queue, visited, k)" by (cases t)
  show thesis
    using t(2)[unfolded st]
  proof (cases rule: bfs_body_cases[of queue maze "end" visited k])
    case empty
    with t st show ?thesis using exhausted by simp
  next
    case (found p)
    with t st show ?thesis using that(2)[of queue visited] by simp
  next
    case (skip node p)
    with t st show ?thesis by simp
  next
    case (raise node p)
    with t st show ?thesis by simp
  next
    case (expand node p)
    with t st show ?thesis by simp
  qed
qed

lemma a_star_result:
  assumes "a_star_algorithm maze start end = Some (Inr (path, n))"
  obtains (exhausted) visited where
      "reaches (a_star_body maze end) ([(heuristic end start, 0, start, [start])], {}, 0) ([], visited, n)"
      "path = []"
  | (found) heap visited priority cost where
      "reaches (a_star_body maze end) ([(heuristic end start, 0, start, [start])], {}, 0) (heap, visited, n)"
      "heap \<noteq> []" "smallest heap = (priority, cost, end, path)"
proof -
  from assms obtain t where
    t: "reaches (a_star_body maze end) ([(heuristic end start, 0, start, [start])], {}, 0) t"
    "a_star_body maze end t = Stop (Inr (path, n))"
    unfolding a_star_algorithm_def by (blast dest: run_loop_reaches)
  obtain heap visited k where st: "t = (heap, visited, k)" by (cases t)
  show thesis
    using t(2)[unfolded st]
  proof (cases rule: a_star_body_cases[of heap maze "end" visited k])
    case empty
    with t st show ?thesis using exhausted by simp
  next
    case (found priority cost p)
    with t st show ?thesis using that(2)[of heap visited priority cost] by simp
  next
    case (skip priority cost node p)
    with t st show ?thesis by simp
  next
    case (raise priority cost node p)
    with t st show ?thesis by simp
  next
    case (expand priority cost node p)
    with t st show ?thesis by simp
  qed
qed

text \<open>A returned path is empty or a walk from start to end.\<close>

lemma dfs_returns_walk:
  assumes "dfs_algorithm maze start end = Some (Inr (path, n))" and "path \<noteq> []"
  shows "walk maze path \<and> hd path = start \<and> last path = end"
  using assms(1)
proof (cases rule: dfs_result)
  case (exhausted visited)
  with assms(2) show ?thesis by simp
next
  case (found stack visited)
  then have "(end, path) \<in> set stack" by (metis last_in_set)
  with dfs_reaches_paths[OF found(1)] show ?thesis by auto
qed

lemma bfs_returns_walk:
  assumes "bfs_algorithm maze start end = Some (Inr (path, n))" and "path \<noteq> []"
  shows "walk maze path \<and> hd path = start \<and> last path = end"
  using assms(1)
proof (cases rule: bfs_result)
  case (exhausted visited)
  with assms(2) show ?thesis by simp
next
  case (found queue visited)
  then have "(end, path) \<in> set queue" by (metis hd_in_set)
  with bfs_reaches_paths[OF found(1)] show ?thesis by auto
qed

lemma a_star_returns_walk:
  assumes "a_star_algorithm maze start end = Some (Inr (path, n))" and "path \<noteq> []"
  shows "walk maze path \<and> hd path = start \<and> last path = end"
  using assms(1)
proof (cases rule: a_star_result)
  case (exhausted visited)
  with assms(2) show ?thesis by simp
next
  case (found heap visited priority cost)
  then have "(priority, cost, end, path) \<in> set heap" by (metis smallest_in)
  with a_star_reaches_paths[OF found(1)] show ?thesis by (auto simp: entry_ok_def)
qed

section \<open>Walks and paths through Open cells\<close>

lemma is_move_open_cell:
  assumes "is_move maze c" and "0 \<le> fst c" and "0 \<le> snd c"
  shows "open_cell maze c"
proof -
  from assms(1) obtain row where row: "py_index maze (fst c) = Inr row"
    and col: "py_index row (snd c) = Inr CHR ''-''"
    by (auto simp: is_move_def cell_def split: sum.splits)
  from row assms(2) have r: "fst c < int (length maze)" "row = maze ! nat (fst c)"
    by (auto simp: py_index_def split: if_splits)
  from col assms(3) have "snd c < int (length row)" "row ! nat (snd c) = CHR ''-''"
    by (auto simp: py_index_def split: if_splits)
  with r assms(2,3) show ?thesis by (simp add: open_cell_def in_grid_def)
qed

lemma open_cell_is_move: "open_cell maze c \<Longrightarrow> is_move maze c"
  by (auto simp: open_cell_def in_grid_def is_move_def cell_def py_index_def)

lemma grid_path_walk: "grid_path maze w \<Longrightarrow> walk maze w"
proof (induction maze w rule: grid_path.induct)
  case (3 maze a b rest)
  then have "open_cell maze b" by (cases rest) simp_all
  with 3 show ?case by (simp add: open_cell_is_move)
qed simp_all

lemma walk_grid_path:
  assumes "walk maze w" and "open_cell maze (hd w)" and "\<forall>c \<in> set w. 0 \<le> fst c \<and> 0 \<le> snd c"
  shows "grid_path maze w"
  using assms
proof (induction maze w rule: walk.induct)
  case (3 maze a b rest)
  then have "open_cell maze b" by (simp add: is_move_open_cell)
  with 3 show ?case by simp
qed simp_all

lemma grid_path_not_Nil: "grid_path maze w \<Longrightarrow> w \<noteq> []"
  by (cases w) simp_all

lemma grid_reachable_walk_reachable:
  "grid_reachable maze start end \<Longrightarrow> walk_reachable maze start end"
  unfolding grid_reachable_def walk_reachable_def by (blast intro: grid_path_walk)

lemma grid_distance_le:
  assumes "grid_path maze w" and "hd w = start" and "last w = end"
  shows "grid_distance maze start end \<le> edge_count w"
  unfolding grid_distance_def using assms by (intro Least_le) blast

lemma grid_distance_attained:
  assumes "grid_reachable maze start end"
  shows "\<exists>w. grid_path maze w \<and> hd w = start \<and> last w = end
           \<and> edge_count w = grid_distance maze start end"
proof -
  from assms obtain w where "grid_path maze w \<and> hd w = start \<and> last w = end"
    by (auto simp: grid_reachable_def)
  then have "\<exists>k. \<exists>w. grid_path maze w \<and> hd w = start \<and> last w = end \<and> edge_count w = k"
    by blast
  from LeastI_ex[OF this] show ?thesis unfolding grid_distance_def by blast
qed

lemma grid_distance_eq:
  assumes "grid_path maze w" and "hd w = start" and "last w = end" and "edge_count w = k"
    and "\<And>v. grid_path maze v \<Longrightarrow> hd v = start \<Longrightarrow> last v = end \<Longrightarrow> k \<le> edge_count v"
  shows "grid_distance maze start end = k"
  unfolding grid_distance_def
proof (rule Least_equality)
  show "\<exists>w. grid_path maze w \<and> hd w = start \<and> last w = end \<and> edge_count w = k"
    using assms(1-4) by blast
  show "k \<le> y" if "\<exists>w. grid_path maze w \<and> hd w = start \<and> last w = end \<and> edge_count w = y" for y
    using that assms(5) by blast
qed

text \<open>
  A lower bound on the length of paths through Open cells: a labelling of the Open cells
  that grows by at most one along every step.
\<close>

lemma grid_path_potential:
  fixes d :: "coord \<Rightarrow> nat"
  assumes cells: "\<And>a. open_cell maze a \<Longrightarrow> a \<in> S"
    and lip: "\<forall>a \<in> S. \<forall>nb \<in> set (dfs_neighbors a). nb \<in> S \<longrightarrow> d nb \<le> Suc (d a)"
    and "grid_path maze w"
  shows "d (last w) \<le> d (hd w) + edge_count w"
  using assms(3)
proof (induction w rule: induct_list012)
  case 1
  then show ?case by simp
next
  case (2 a)
  then show ?case by (simp add: edge_count_def)
next
  case (3 a b rest)
  then have g: "grid_path maze (b # rest)" and ab: "adjacent a b" and oa: "open_cell maze a" by simp_all
  from g have ob: "open_cell maze b" by (cases rest) simp_all
  from 3 g have "d (last (b # rest)) \<le> d b + edge_count (b # rest)" by simp
  moreover from lip cells[OF oa] cells[OF ob] ab have "d b \<le> Suc (d a)"
    by (simp add: adjacent_dfs_neighbors)
  ultimately show ?case by (simp add: edge_count_def)
qed

text \<open>A set of Open cells closed under steps to Open cells holds every path that starts in it.\<close>

lemma grid_path_stays:
  assumes closed: "\<forall>a \<in> S. \<forall>nb \<in> set (dfs_neighbors a). open_cell maze nb \<longrightarrow> nb \<in> S"
    and "grid_path maze w" and "hd w \<in> S"
  shows "set w \<subseteq> S"
  using assms(2,3)
proof (induction w rule: induct_list012)
  case (3 a b rest)
  then have g: "grid_path maze (b # rest)" and ab: "adjacent a b" and a: "a \<in> S" by simp_all
  from g have "open_cell maze b" by (cases rest) simp_all
  with closed a ab have "b \<in> S" by (simp add: adjacent_dfs_neighbors)
  with 3 g a show ?case by simp
qed simp_all

section \<open>Evaluation on concrete mazes\<close>

text \<open>The equations that unfold a run on a concrete maze.\<close>

lemmas search_eval = run_loop.simps dfs_algorithm_def dfs_body_def cell_def py_index_def
  bfs_algorithm_def bfs_body_def a_star_algorithm_def a_star_body_def heappop_def heappush_def heuristic_def

section \<open>The visited set and the count\<close>

text \<open>The visited set only grows, and after the first pass it holds start.\<close>

lemma dfs_step_visited:
  assumes "dfs_body maze end (stack, visited, n) = Continue (stack', visited', n')"
  shows "(visited' = visited \<and> n' = n \<and> fst (last stack) \<in> visited)
       \<or> (visited' = insert (fst (last stack)) visited \<and> n' = n + 1 \<and> fst (last stack) \<notin> visited)"
  using assms by (cases rule: dfs_body_cases[of stack maze "end" visited n]) auto

lemma bfs_step_visited:
  assumes "bfs_body maze end (queue, visited, n) = Continue (queue', visited', n')"
  shows "(visited' = visited \<and> n' = n \<and> fst (hd queue) \<in> visited)
       \<or> (visited' = insert (fst (hd queue)) visited \<and> n' = n + 1 \<and> fst (hd queue) \<notin> visited)"
  using assms by (cases rule: bfs_body_cases[of queue maze "end" visited n]) auto

lemma a_star_step_visited:
  assumes "a_star_body maze end (heap, visited, n) = Continue (heap', visited', n')"
  shows "(visited' = visited \<and> n' = n \<and> fst (snd (snd (smallest heap))) \<in> visited)
       \<or> (visited' = insert (fst (snd (snd (smallest heap)))) visited \<and> n' = n + 1
            \<and> fst (snd (snd (smallest heap))) \<notin> visited)"
  using assms by (cases rule: a_star_body_cases[of heap maze "end" visited n]) auto

lemma dfs_first_step:
  assumes "start \<noteq> end"
    and "dfs_body maze end ([(start, [start])], {}, 0) = Continue (stack, visited, n)"
  shows "start \<in> visited"
  using assms(2) assms(1) by (cases rule: dfs_body_cases[of "[(start, [start])]" maze "end" "{}" 0]) auto

lemma bfs_first_step:
  assumes "start \<noteq> end"
    and "bfs_body maze end ([(start, [start])], {}, 0) = Continue (queue, visited, n)"
  shows "start \<in> visited"
  using assms(2) assms(1) by (cases rule: bfs_body_cases[of "[(start, [start])]" maze "end" "{}" 0]) auto

lemma a_star_first_step:
  assumes "start \<noteq> end"
    and "a_star_body maze end ([(h, 0, start, [start])], {}, 0) = Continue (heap, visited, n)"
  shows "start \<in> visited"
  using assms(2) assms(1) by (cases rule: a_star_body_cases[of "[(h, 0, start, [start])]" maze "end" "{}" 0]) auto

lemma reaches_start_visited:
  assumes "reaches body init (frontier, visited, n)"
    and first: "\<And>f v k. body init = Continue (f, v, k) \<Longrightarrow> start \<in> v"
    and mono: "\<And>f v k f' v' k'. body (f, v, k) = Continue (f', v', k') \<Longrightarrow> v \<subseteq> v'"
  shows "(frontier, visited, n) = init \<or> start \<in> visited"
  using assms(1)
proof (induction "(frontier, visited, n)" arbitrary: frontier visited n rule: reaches.induct)
  case reaches_init
  then show ?case by simp
next
  case (reaches_next t)
  obtain f0 v0 n0 where t: "t = (f0, v0, n0)" by (cases t)
  from reaches_next(2)[OF t] show ?case
  proof
    assume "(f0, v0, n0) = init"
    with reaches_next(3) t first show ?thesis by auto
  next
    assume "start \<in> v0"
    with reaches_next(3) t mono[of f0 v0 n0 frontier visited n] show ?thesis by auto
  qed
qed

lemma dfs_count_positive:
  assumes "dfs_algorithm maze start end = Some (Inr (path, n))"
  shows "0 \<le> n \<and> (start \<noteq> end \<longrightarrow> 1 \<le> n) \<and> (start = end \<longrightarrow> n = 0)"
proof -
  let ?init = "([(start, [start])], {}, 0 :: int)"
  obtain t where t: "reaches (dfs_body maze end) ?init t"
    "dfs_body maze end t = Stop (Inr (path, n))"
    using assms unfolding dfs_algorithm_def by (blast dest: run_loop_reaches)
  obtain stack visited k where st: "t = (stack, visited, k)" by (cases t)
  have kn: "k = n"
    using t(2)[unfolded st] by (cases rule: dfs_body_cases[of stack maze "end" visited k]) auto
  have cnt: "finite visited \<and> k = int (card visited)"
    using reaches_count[OF t(1)[unfolded st]] dfs_step_count by blast
  have pos: "1 \<le> n" if ne: "start \<noteq> end"
  proof -
    have "(stack, visited, k) = ?init \<or> start \<in> visited"
      using t(1)[unfolded st]
    proof (rule reaches_start_visited)
      show "start \<in> v" if "dfs_body maze end ?init = Continue (f, v, k)" for f v k
        using dfs_first_step[OF ne that] .
      show "v \<subseteq> v'" if "dfs_body maze end (f, v, k) = Continue (f', v', k')" for f v k f' v' k'
        using dfs_step_visited[OF that] by auto
    qed
    moreover have "(stack, visited, k) \<noteq> ?init"
    proof
      assume "(stack, visited, k) = ?init"
      with t(2) st ne show False
        by (cases rule: dfs_body_cases[of "[(start, [start])]" maze "end" "{}" 0]) auto
    qed
    ultimately have "start \<in> visited" by blast
    with cnt have "0 < card visited" by (auto simp: card_gt_0_iff)
    with cnt kn show ?thesis by linarith
  qed
  have zero: "n = 0" if "start = end"
  proof -
    have "dfs_body maze end ?init = Stop (Inr ([start], 0))"
      using that by (simp add: dfs_body_def)
    then have "dfs_algorithm maze start end = Some (Inr ([start], 0))"
      unfolding dfs_algorithm_def by (rule run_loop_Stop)
    with assms show ?thesis by simp
  qed
  from cnt kn pos zero show ?thesis by auto
qed

lemma bfs_count_positive:
  assumes "bfs_algorithm maze start end = Some (Inr (path, n))"
  shows "0 \<le> n \<and> (start \<noteq> end \<longrightarrow> 1 \<le> n) \<and> (start = end \<longrightarrow> n = 0)"
proof -
  let ?init = "([(start, [start])], {}, 0 :: int)"
  obtain t where t: "reaches (bfs_body maze end) ?init t"
    "bfs_body maze end t = Stop (Inr (path, n))"
    using assms unfolding bfs_algorithm_def by (blast dest: run_loop_reaches)
  obtain queue visited k where st: "t = (queue, visited, k)" by (cases t)
  have kn: "k = n"
    using t(2)[unfolded st] by (cases rule: bfs_body_cases[of queue maze "end" visited k]) auto
  have cnt: "finite visited \<and> k = int (card visited)"
    using reaches_count[OF t(1)[unfolded st]] bfs_step_count by blast
  have pos: "1 \<le> n" if ne: "start \<noteq> end"
  proof -
    have "(queue, visited, k) = ?init \<or> start \<in> visited"
      using t(1)[unfolded st]
    proof (rule reaches_start_visited)
      show "start \<in> v" if "bfs_body maze end ?init = Continue (f, v, k)" for f v k
        using bfs_first_step[OF ne that] .
      show "v \<subseteq> v'" if "bfs_body maze end (f, v, k) = Continue (f', v', k')" for f v k f' v' k'
        using bfs_step_visited[OF that] by auto
    qed
    moreover have "(queue, visited, k) \<noteq> ?init"
    proof
      assume "(queue, visited, k) = ?init"
      with t(2) st ne show False
        by (cases rule: bfs_body_cases[of "[(start, [start])]" maze "end" "{}" 0]) auto
    qed
    ultimately have "start \<in> visited" by blast
    with cnt have "0 < card visited" by (auto simp: card_gt_0_iff)
    with cnt kn show ?thesis by linarith
  qed
  have zero: "n = 0" if "start = end"
  proof -
    have "bfs_body maze end ?init = Stop (Inr ([start], 0))"
      using that by (simp add: bfs_body_def)
    then have "bfs_algorithm maze start end = Some (Inr ([start], 0))"
      unfolding bfs_algorithm_def by (rule run_loop_Stop)
    with assms show ?thesis by simp
  qed
  from cnt kn pos zero show ?thesis by auto
qed

lemma a_star_count_positive:
  assumes "a_star_algorithm maze start end = Some (Inr (path, n))"
  shows "0 \<le> n \<and> (start \<noteq> end \<longrightarrow> 1 \<le> n) \<and> (start = end \<longrightarrow> n = 0)"
proof -
  let ?init = "([(heuristic end start, 0, start, [start])], {}, 0 :: int)"
  obtain t where t: "reaches (a_star_body maze end) ?init t"
    "a_star_body maze end t = Stop (Inr (path, n))"
    using assms unfolding a_star_algorithm_def by (blast dest: run_loop_reaches)
  obtain heap visited k where st: "t = (heap, visited, k)" by (cases t)
  have kn: "k = n"
    using t(2)[unfolded st] by (cases rule: a_star_body_cases[of heap maze "end" visited k]) auto
  have cnt: "finite visited \<and> k = int (card visited)"
    using reaches_count[OF t(1)[unfolded st]] a_star_step_count by blast
  have pos: "1 \<le> n" if ne: "start \<noteq> end"
  proof -
    have "(heap, visited, k) = ?init \<or> start \<in> visited"
      using t(1)[unfolded st]
    proof (rule reaches_start_visited)
      show "start \<in> v" if "a_star_body maze end ?init = Continue (f, v, k)" for f v k
        using a_star_first_step[OF ne that] .
      show "v \<subseteq> v'" if "a_star_body maze end (f, v, k) = Continue (f', v', k')" for f v k f' v' k'
        using a_star_step_visited[OF that] by auto
    qed
    moreover have "(heap, visited, k) \<noteq> ?init"
    proof
      assume "(heap, visited, k) = ?init"
      with t(2) st ne show False
        by (cases rule: a_star_body_cases[of "[(heuristic end start, 0, start, [start])]" maze "end" "{}" 0]) auto
    qed
    ultimately have "start \<in> visited" by blast
    with cnt have "0 < card visited" by (auto simp: card_gt_0_iff)
    with cnt kn show ?thesis by linarith
  qed
  have zero: "n = 0" if "start = end"
  proof -
    have "a_star_body maze end ?init = Stop (Inr ([start], 0))"
      using that by (simp add: a_star_body_def heappop_def)
    then have "a_star_algorithm maze start end = Some (Inr ([start], 0))"
      unfolding a_star_algorithm_def by (rule run_loop_Stop)
    with assms show ?thesis by simp
  qed
  from cnt kn pos zero show ?thesis by auto
qed

section \<open>The coordinates expanded so far\<close>

lemma reaches_visited_mono:
  assumes "reaches body u t"
    and step: "\<And>s s'. body s = Continue s' \<Longrightarrow> vis s' = vis s \<union> set_option (ex s)"
  shows "vis u \<subseteq> vis t"
  using assms(1)
proof (induction rule: reaches.induct)
  case reaches_init
  then show ?case by simp
next
  case (reaches_next t t')
  with step[of t t'] show ?case by auto
qed

lemma visited_is_expanded:
  assumes r: "reaches body init t"
    and step: "\<And>s s'. body s = Continue s' \<Longrightarrow> vis s' = vis s \<union> set_option (ex s)"
  shows "vis t = vis init \<union> expanded_so_far body ex init t"
  using r
proof (induction rule: reaches.induct)
  case reaches_init
  have "expanded_so_far body ex init init \<subseteq> vis init"
  proof
    fix x assume "x \<in> expanded_so_far body ex init init"
    then obtain s u where su: "body s = Continue u" "reaches body u init" "ex s = Some x"
      by (auto simp: expanded_so_far_def)
    from step[OF su(1)] su(3) have "x \<in> vis u" by simp
    with reaches_visited_mono[OF su(2), of vis ex] step show "x \<in> vis init" by blast
  qed
  then show ?case by auto
next
  case (reaches_next t t')
  have a: "expanded_so_far body ex init t \<subseteq> expanded_so_far body ex init t'"
    using reaches_next(2) by (auto simp: expanded_so_far_def intro: reaches.reaches_next)
  have b: "set_option (ex t) \<subseteq> expanded_so_far body ex init t'"
    using reaches_next(1,2) by (auto simp: expanded_so_far_def intro: reaches_init)
  have c: "expanded_so_far body ex init t' \<subseteq> vis t'"
  proof
    fix x assume "x \<in> expanded_so_far body ex init t'"
    then obtain s u where su: "body s = Continue u" "reaches body u t'" "ex s = Some x"
      by (auto simp: expanded_so_far_def)
    from step[OF su(1)] su(3) have "x \<in> vis u" by simp
    with reaches_visited_mono[OF su(2), of vis ex] step show "x \<in> vis t'" by blast
  qed
  have d: "vis init \<subseteq> vis t'"
    using reaches_visited_mono[of body init t' vis ex] step reaches.reaches_next[OF reaches_next(1,2)]
    by blast
  from step[OF reaches_next(2)] reaches_next(3) a b c d show ?case by blast
qed

lemma dfs_step_expands:
  assumes "dfs_body maze end s = Continue s'"
  shows "fst (snd s') = fst (snd s) \<union> set_option (dfs_expands end s)"
proof -
  obtain stack visited n where s: "s = (stack, visited, n)" by (cases s)
  show ?thesis
    using assms unfolding s
    by (cases rule: dfs_body_cases[of stack maze "end" visited n]) (auto simp: dfs_expands_def)
qed

lemma bfs_step_expands:
  assumes "bfs_body maze end s = Continue s'"
  shows "fst (snd s') = fst (snd s) \<union> set_option (bfs_expands end s)"
proof -
  obtain queue visited n where s: "s = (queue, visited, n)" by (cases s)
  show ?thesis
    using assms unfolding s
    by (cases rule: bfs_body_cases[of queue maze "end" visited n]) (auto simp: bfs_expands_def)
qed

lemma a_star_step_expands:
  assumes "a_star_body maze end s = Continue s'"
  shows "fst (snd s') = fst (snd s) \<union> set_option (a_star_expands end s)"
proof -
  obtain heap visited n where s: "s = (heap, visited, n)" by (cases s)
  show ?thesis
    using assms unfolding s
    by (cases rule: a_star_body_cases[of heap maze "end" visited n]) (auto simp: a_star_expands_def)
qed

lemma dfs_reaches_expanded:
  assumes "reaches (dfs_body maze end) ([(start, [start])], {}, 0) (stack, visited, n)"
  shows "visited = expanded_so_far (dfs_body maze end) (dfs_expands end)
                     ([(start, [start])], {}, 0) (stack, visited, n)
       \<and> finite visited \<and> n = int (card visited)"
proof -
  have "fst (snd (stack, visited, n)) =
          fst (snd ([(start, [start])], {} :: coord set, 0 :: int)) \<union>
          expanded_so_far (dfs_body maze end) (dfs_expands end)
            ([(start, [start])], {}, 0) (stack, visited, n)"
    using assms by (rule visited_is_expanded) (rule dfs_step_expands)
  moreover have "finite visited \<and> n = int (card visited)"
    using reaches_count[OF assms] dfs_step_count by blast
  ultimately show ?thesis by simp
qed

lemma bfs_reaches_expanded:
  assumes "reaches (bfs_body maze end) ([(start, [start])], {}, 0) (queue, visited, n)"
  shows "visited = expanded_so_far (bfs_body maze end) (bfs_expands end)
                     ([(start, [start])], {}, 0) (queue, visited, n)
       \<and> finite visited \<and> n = int (card visited)"
proof -
  have "fst (snd (queue, visited, n)) =
          fst (snd ([(start, [start])], {} :: coord set, 0 :: int)) \<union>
          expanded_so_far (bfs_body maze end) (bfs_expands end)
            ([(start, [start])], {}, 0) (queue, visited, n)"
    using assms by (rule visited_is_expanded) (rule bfs_step_expands)
  moreover have "finite visited \<and> n = int (card visited)"
    using reaches_count[OF assms] bfs_step_count by blast
  ultimately show ?thesis by simp
qed

lemma a_star_reaches_expanded:
  assumes "reaches (a_star_body maze end) ([(heuristic end start, 0, start, [start])], {}, 0) (heap, visited, n)"
  shows "visited = expanded_so_far (a_star_body maze end) (a_star_expands end)
                     ([(heuristic end start, 0, start, [start])], {}, 0) (heap, visited, n)
       \<and> finite visited \<and> n = int (card visited)"
proof -
  have "fst (snd (heap, visited, n)) =
          fst (snd ([(heuristic end start, 0 :: int, start, [start])], {} :: coord set, 0 :: int)) \<union>
          expanded_so_far (a_star_body maze end) (a_star_expands end)
            ([(heuristic end start, 0, start, [start])], {}, 0) (heap, visited, n)"
    using assms by (rule visited_is_expanded) (rule a_star_step_expands)
  moreover have "finite visited \<and> n = int (card visited)"
    using reaches_count[OF assms] a_star_step_count by blast
  ultimately show ?thesis by simp
qed

section \<open>A walk to the end is never lost\<close>

lemma walk_mid: "walk maze (xs @ x # y # ys) \<Longrightarrow> adjacent x y \<and> is_move maze y"
proof (induction xs)
  case Nil
  then show ?case by simp
next
  case (Cons a xs)
  then show ?case by (cases xs) simp_all
qed

lemma in_butlast: "x \<in> set xs \<Longrightarrow> x \<noteq> last xs \<Longrightarrow> x \<in> set (butlast xs)"
  by (induction xs) (auto split: if_splits)

lemma in_tl': "x \<in> set xs \<Longrightarrow> x \<noteq> hd xs \<Longrightarrow> x \<in> set (tl xs)"
  by (cases xs) auto

text \<open>
  Where a walk to the end meets an expanded node for the last time, its next coordinate
  is a neighbour that counts as a move.
\<close>

lemma walk_leaves_node:
  assumes w: "walk maze (pre @ suf)" and e: "last (pre @ suf) = end"
    and v: "v \<in> set suf" and ne: "v \<noteq> end"
  obtains a b where "suf = a @ v # b" and "v \<notin> set b" and "b \<noteq> []"
    and "adjacent v (hd b)" and "is_move maze (hd b)"
proof -
  from split_list_last[OF v] obtain a b where ab: "suf = a @ v # b" "v \<notin> set b" by blast
  have bne: "b \<noteq> []"
  proof
    assume "b = []"
    with ab e have "v = end" by simp
    with ne show False by simp
  qed
  then obtain c b' where b: "b = c # b'" by (cases b) auto
  from w ab b have "walk maze ((pre @ a) @ v # c # b')" by simp
  then have "adjacent v c \<and> is_move maze c" by (rule walk_mid)
  with ab bne b that[of a b] show thesis by simp
qed

text \<open>
  While the end is not taken from the stack, some coordinate of any walk from start to end
  waits on the stack, and the walk from there on is unvisited.
\<close>

lemma dfs_step_covers:
  assumes step: "dfs_body maze end (stack, visited, n) = Continue (stack', visited', n')"
    and w: "walk maze w" "last w = end"
    and inv: "\<exists>pre suf p. w = pre @ suf \<and> suf \<noteq> [] \<and> (hd suf, p) \<in> set stack \<and> set suf \<inter> visited = {}"
  shows "\<exists>pre suf p. w = pre @ suf \<and> suf \<noteq> [] \<and> (hd suf, p) \<in> set stack' \<and> set suf \<inter> visited' = {}"
proof -
  from inv obtain pre suf p where i: "w = pre @ suf" "suf \<noteq> []" "(hd suf, p) \<in> set stack"
    "set suf \<inter> visited = {}" by blast
  from i(2,4) have hv: "hd suf \<notin> visited" by (metis disjoint_iff hd_in_set)
  show ?thesis
  proof (cases rule: dfs_body_cases[of stack maze "end" visited n])
    case empty
    with step show ?thesis by simp
  next
    case (found path)
    with step show ?thesis by simp
  next
    case (skip node path)
    with step have s: "stack' = butlast stack" "visited' = visited" by simp_all
    from skip hv have "(hd suf, p) \<noteq> last stack" by auto
    with i(3) have "(hd suf, p) \<in> set (butlast stack)" by (rule in_butlast)
    with i s show ?thesis by blast
  next
    case (raise node path)
    with step show ?thesis by simp
  next
    case (expand node path)
    with step have s: "stack' = butlast stack @ map (\<lambda>nb. (nb, path @ [nb])) (filter (is_move maze) (dfs_neighbors node))"
      "visited' = insert node visited" by simp_all
    show ?thesis
    proof (cases "node \<in> set suf")
      case True
      from w i(1) have "walk maze (pre @ suf)" "last (pre @ suf) = end" by simp_all
      from this True expand(3) obtain a b where ab: "suf = a @ node # b" "node \<notin> set b" "b \<noteq> []"
        "adjacent node (hd b)" "is_move maze (hd b)" by (rule walk_leaves_node)
      from ab(4,5) s(1) have "(hd b, path @ [hd b]) \<in> set stack'"
        by (simp add: adjacent_dfs_neighbors)
      moreover from i(1) ab(1) have "w = (pre @ a @ [node]) @ b" by simp
      moreover from i(4) ab(1,2) s(2) have "set b \<inter> visited' = {}" by auto
      ultimately show ?thesis using ab(3) by blast
    next
      case False
      with i(2) have "hd suf \<noteq> node" by (metis hd_in_set)
      with expand(2) have "(hd suf, p) \<noteq> last stack" by auto
      with i(3) have "(hd suf, p) \<in> set (butlast stack)" by (rule in_butlast)
      with s(1) have "(hd suf, p) \<in> set stack'" by simp
      moreover from i(4) False s(2) have "set suf \<inter> visited' = {}" by auto
      ultimately show ?thesis using i(1,2) by blast
    qed
  qed
qed

lemma dfs_reaches_covers:
  assumes r: "reaches (dfs_body maze end) ([(start, [start])], {}, 0) (stack, visited, n)"
    and w: "walk maze w" "hd w = start" "last w = end"
  shows "\<exists>pre suf p. w = pre @ suf \<and> suf \<noteq> [] \<and> (hd suf, p) \<in> set stack \<and> set suf \<inter> visited = {}"
  using r
proof (induction "(stack, visited, n)" arbitrary: stack visited n rule: reaches.induct)
  case reaches_init
  from w have "w = [] @ w \<and> w \<noteq> [] \<and> (hd w, [start]) \<in> set [(start, [start])] \<and> set w \<inter> {} = {}"
    by (auto dest: walk_not_Nil)
  then show ?case by blast
next
  case (reaches_next t)
  obtain stack0 visited0 n0 where t: "t = (stack0, visited0, n0)" by (cases t)
  from reaches_next(2)[OF t] reaches_next(3)[unfolded t] w(1,3)
  show ?case by (intro dfs_step_covers[of maze "end" stack0 visited0 n0 stack visited n w]) 
qed

lemma dfs_finds_reachable:
  assumes "dfs_algorithm maze start end = Some (Inr (path, n))"
    and "walk_reachable maze start end"
  shows "path \<noteq> []"
proof
  assume "path = []"
  from assms(2) obtain w where w: "walk maze w" "hd w = start" "last w = end"
    by (auto simp: walk_reachable_def)
  from assms(1) show False
  proof (cases rule: dfs_result)
    case (exhausted visited)
    from dfs_reaches_covers[OF exhausted(1) w] show False by simp
  next
    case (found stack visited)
    then have "(end, path) \<in> set stack" by (metis last_in_set)
    with dfs_reaches_paths[OF found(1)] have "walk maze path" by auto
    with \<open>path = []\<close> show False by simp
  qed
qed

section \<open>The order of the queue\<close>

lemma Continue_triple:
  "Continue (a, b, c) = Continue (a', b', c') \<Longrightarrow> a' = a \<and> b' = b \<and> c' = c"
  by simp

lemma queue_ordered_hd_least:
  assumes "queue_ordered queue" and "e \<in> set queue"
  shows "length (snd (hd queue)) \<le> length (snd e)"
proof (cases queue)
  case Nil
  with assms show ?thesis by simp
next
  case (Cons x xs)
  with assms show ?thesis by (auto simp: queue_ordered_def)
qed

lemma queue_ordered_step:
  assumes o: "queue_ordered queue" and ne: "queue \<noteq> []"
    and new: "\<forall>e \<in> set new. length (snd e) = Suc (length (snd (hd queue)))"
  shows "queue_ordered (tl queue @ new)"
proof -
  obtain x xs where q: "queue = x # xs" using ne by (cases queue) auto
  let ?L = "length (snd x)"
  from o q have s: "sorted (map (\<lambda>e. length (snd e)) xs)"
    and lo: "\<forall>e \<in> set xs. ?L \<le> length (snd e)"
    and hi: "\<forall>e \<in> set xs. length (snd e) \<le> Suc ?L"
    by (auto simp: queue_ordered_def)
  from new q have n: "\<forall>e \<in> set new. length (snd e) = Suc ?L" by simp
  have "sorted (map (\<lambda>e. length (snd e)) new)"
    using n by (induction new) auto
  with s hi n have srt: "sorted (map (\<lambda>e. length (snd e)) (xs @ new))"
    by (auto simp: sorted_append)
  have bound: "length (snd e) \<le> Suc (length (snd (hd (xs @ new))))" if "e \<in> set (xs @ new)" for e
  proof -
    from that hi n have 1: "length (snd e) \<le> Suc ?L" by auto
    from that have "xs @ new \<noteq> []" by auto
    then have "hd (xs @ new) \<in> set (xs @ new)" by (rule hd_in_set)
    with lo n have "?L \<le> length (snd (hd (xs @ new)))" by auto
    with 1 show ?thesis by simp
  qed
  from srt bound q show ?thesis by (simp add: queue_ordered_def)
qed

lemma bfs_step_ordered:
  assumes step: "bfs_body maze end (queue, visited, n) = Continue (queue', visited', n')"
    and o: "queue_ordered queue"
  shows "queue_ordered queue'"
proof (cases rule: bfs_body_cases[of queue maze "end" visited n])
  case empty
  with step show ?thesis by simp
next
  case (found path)
  with step show ?thesis by simp
next
  case (skip node path)
  with step have "queue' = tl queue @ []" by simp
  with queue_ordered_step[OF o skip(1), of "[]"] show ?thesis by simp
next
  case (raise node path)
  with step show ?thesis by simp
next
  case (expand node path)
  from Continue_triple[OF step[unfolded expand(6)]]
  have "queue' = tl queue @ map (\<lambda>nb. (nb, path @ [nb]))
        (filter (\<lambda>nb. is_move maze nb \<and> nb \<notin> insert node visited) (bfs_neighbors node))"
    by (rule conjunct1)
  moreover have "\<forall>e \<in> set (map (\<lambda>nb. (nb, path @ [nb]))
        (filter (\<lambda>nb. is_move maze nb \<and> nb \<notin> insert node visited) (bfs_neighbors node))).
      length (snd e) = Suc (length (snd (hd queue)))"
    using expand(2) by auto
  ultimately show ?thesis using queue_ordered_step[OF o expand(1)] by simp
qed

lemma bfs_reaches_ordered:
  assumes "reaches (bfs_body maze end) ([(start, [start])], {}, 0) (queue, visited, n)"
  shows "queue_ordered queue"
  using assms
proof (induction "(queue, visited, n)" arbitrary: queue visited n rule: reaches.induct)
  case reaches_init
  then show ?case by (simp add: queue_ordered_def)
next
  case (reaches_next t)
  obtain queue0 visited0 n0 where t: "t = (queue0, visited0, n0)" by (cases t)
  with reaches_next show ?case using bfs_step_ordered[of maze "end" queue0 visited0 n0 queue visited n]
    by blast
qed

lemma bfs_step_covers:
  assumes step: "bfs_body maze end (queue, visited, n) = Continue (queue', visited', n')"
    and w: "walk maze w" "last w = end"
    and o: "queue_ordered queue"
    and inv: "\<exists>pre suf p. w = pre @ suf \<and> suf \<noteq> [] \<and> (hd suf, p) \<in> set queue
                \<and> length p \<le> Suc (length pre) \<and> set suf \<inter> visited = {}"
  shows "\<exists>pre suf p. w = pre @ suf \<and> suf \<noteq> [] \<and> (hd suf, p) \<in> set queue'
                \<and> length p \<le> Suc (length pre) \<and> set suf \<inter> visited' = {}"
proof -
  from inv obtain pre suf p where i: "w = pre @ suf" "suf \<noteq> []" "(hd suf, p) \<in> set queue"
    "length p \<le> Suc (length pre)" "set suf \<inter> visited = {}" by blast
  from i(2,5) have hv: "hd suf \<notin> visited" by (metis disjoint_iff hd_in_set)
  show ?thesis
  proof (cases rule: bfs_body_cases[of queue maze "end" visited n])
    case empty
    with step show ?thesis by simp
  next
    case (found path)
    with step show ?thesis by simp
  next
    case (skip node path)
    from Continue_triple[OF step[unfolded skip(5)]]
    have s: "queue' = tl queue" "visited' = visited" by simp_all
    from skip hv have "(hd suf, p) \<noteq> hd queue" by auto
    with i(3) have "(hd suf, p) \<in> set (tl queue)" by (rule in_tl')
    with i s show ?thesis by blast
  next
    case (raise node path)
    with step show ?thesis by simp
  next
    case (expand node path)
    from Continue_triple[OF step[unfolded expand(6)]]
    have s: "queue' = tl queue @ map (\<lambda>nb. (nb, path @ [nb]))
        (filter (\<lambda>nb. is_move maze nb \<and> nb \<notin> insert node visited) (bfs_neighbors node))"
      "visited' = insert node visited" by simp_all
    show ?thesis
    proof (cases "node \<in> set suf")
      case True
      from w i(1) have "walk maze (pre @ suf)" "last (pre @ suf) = end" by simp_all
      from this True expand(3) obtain a b where ab: "suf = a @ node # b" "node \<notin> set b" "b \<noteq> []"
        "adjacent node (hd b)" "is_move maze (hd b)" by (rule walk_leaves_node)
      from ab(2,3) have "hd b \<noteq> node" by (metis hd_in_set)
      moreover from ab(1,3) i(5) have "hd b \<notin> visited"
        by (metis Un_iff disjoint_iff hd_in_set list.set_intros(2) set_append)
      ultimately have "(hd b, path @ [hd b]) \<in> set queue'"
        using ab(4,5) s(1) by (simp add: adjacent_bfs_neighbors)
      moreover from i(1) ab(1) have "w = (pre @ a @ [node]) @ b" by simp
      moreover from i(5) ab(1,2) s(2) have "set b \<inter> visited' = {}" by auto
      moreover have "length (path @ [hd b]) \<le> Suc (length (pre @ a @ [node]))"
      proof -
        from queue_ordered_hd_least[OF o i(3)] expand(2) have "length path \<le> length p" by simp
        with i(4) show ?thesis by simp
      qed
      ultimately show ?thesis using ab(3) by blast
    next
      case False
      with i(2) have "hd suf \<noteq> node" by (metis hd_in_set)
      with expand(2) have "(hd suf, p) \<noteq> hd queue" by auto
      with i(3) have "(hd suf, p) \<in> set (tl queue)" by (rule in_tl')
      with s(1) have "(hd suf, p) \<in> set queue'" by simp
      moreover from i(5) False s(2) have "set suf \<inter> visited' = {}" by auto
      ultimately show ?thesis using i(1,2,4) by blast
    qed
  qed
qed

lemma bfs_reaches_covers:
  assumes r: "reaches (bfs_body maze end) ([(start, [start])], {}, 0) (queue, visited, n)"
    and w: "walk maze w" "hd w = start" "last w = end"
  shows "\<exists>pre suf p. w = pre @ suf \<and> suf \<noteq> [] \<and> (hd suf, p) \<in> set queue
                \<and> length p \<le> Suc (length pre) \<and> set suf \<inter> visited = {}"
  using r
proof (induction "(queue, visited, n)" arbitrary: queue visited n rule: reaches.induct)
  case reaches_init
  from w have "w = [] @ w \<and> w \<noteq> [] \<and> (hd w, [start]) \<in> set [(start, [start])]
      \<and> length [start] \<le> Suc (length ([] :: path)) \<and> set w \<inter> {} = {}"
    by (auto dest: walk_not_Nil)
  then show ?case by blast
next
  case (reaches_next t)
  obtain queue0 visited0 n0 where t: "t = (queue0, visited0, n0)" by (cases t)
  from reaches_next(1)[unfolded t] have "queue_ordered queue0" by (rule bfs_reaches_ordered)
  with reaches_next(2)[OF t] reaches_next(3)[unfolded t] w(1,3)
  show ?case by (intro bfs_step_covers[of maze "end" queue0 visited0 n0 queue visited n w])
qed

lemma bfs_shortest_walk:
  assumes "bfs_algorithm maze start end = Some (Inr (path, n))"
    and w: "walk maze w" "hd w = start" "last w = end"
  shows "path \<noteq> [] \<and> length path \<le> length w"
  using assms(1)
proof (cases rule: bfs_result)
  case (exhausted visited)
  from bfs_reaches_covers[OF exhausted(1) w] show ?thesis by simp
next
  case (found queue visited)
  then have "(end, path) \<in> set queue" by (metis hd_in_set)
  with bfs_reaches_paths[OF found(1)] have "walk maze path" by auto
  then have ne: "path \<noteq> []" by (rule walk_not_Nil)
  from bfs_reaches_covers[OF found(1) w] obtain pre suf p where
    i: "w = pre @ suf" "suf \<noteq> []" "(hd suf, p) \<in> set queue" "length p \<le> Suc (length pre)"
    by blast
  from queue_ordered_hd_least[OF bfs_reaches_ordered[OF found(1)] i(3)] found(3)
  have "length path \<le> length p" by simp
  also note i(4)
  also from i(1,2) have "Suc (length pre) \<le> length w" by (cases suf) simp_all
  finally show ?thesis using ne by simp
qed

section \<open>The heuristic and the heap\<close>

lemma heuristic_adjacent: "adjacent x y \<Longrightarrow> heuristic end x \<le> heuristic end y + 1"
  by (auto simp: adjacent_def heuristic_def)

text \<open>
  Along a walk the heuristic falls by at most one per step: it never overestimates the
  number of steps that are left.
\<close>

lemma heuristic_along_walk:
  assumes "walk maze (xs @ c @ ys)" and "c \<noteq> []"
  shows "heuristic end (hd c) \<le> heuristic end (last c) + int (length c) - 1"
  using assms
proof (induction c arbitrary: xs)
  case Nil
  then show ?case by simp
next
  case (Cons x c)
  show ?case
  proof (cases c)
    case Nil
    then show ?thesis by simp
  next
    case (Cons y c')
    from Cons.prems(1) Cons have "walk maze (xs @ x # y # (c' @ ys))" by simp
    then have "adjacent x y" by (auto dest: walk_mid)
    then have 1: "heuristic end x \<le> heuristic end y + 1" by (rule heuristic_adjacent)
    from Cons.prems(1) have "walk maze ((xs @ [x]) @ c @ ys)" by simp
    from Cons.IH[OF this] Cons have "heuristic end y \<le> heuristic end (last c) + int (length c) - 1"
      by simp
    with 1 Cons show ?thesis by simp
  qed
qed

lemma heuristic_end [simp]: "heuristic end end = 0"
  by (simp add: heuristic_def)

lemma entry_le_priority:
  fixes f f' :: int and r r' :: "int \<times> coord \<times> path"
  shows "(f, r) \<le> (f', r') \<Longrightarrow> f \<le> f'"
  by auto

lemma a_star_step_covers:
  assumes step: "a_star_body maze end (heap, visited, n) = Continue (heap', visited', n')"
    and w: "walk maze w" "last w = end"
    and ok: "\<forall>e \<in> set heap. entry_ok maze start end e"
    and inv: "\<exists>pre suf f g p. w = pre @ suf \<and> suf \<noteq> [] \<and> (f, g, hd suf, p) \<in> set heap
                \<and> g \<le> int (length pre) \<and> set suf \<inter> visited = {}"
  shows "\<exists>pre suf f g p. w = pre @ suf \<and> suf \<noteq> [] \<and> (f, g, hd suf, p) \<in> set heap'
                \<and> g \<le> int (length pre) \<and> set suf \<inter> visited' = {}"
proof -
  from inv obtain pre suf f g p where i: "w = pre @ suf" "suf \<noteq> []" "(f, g, hd suf, p) \<in> set heap"
    "g \<le> int (length pre)" "set suf \<inter> visited = {}" by blast
  from i(2,5) have hv: "hd suf \<notin> visited" by (metis disjoint_iff hd_in_set)
  show ?thesis
  proof (cases rule: a_star_body_cases[of heap maze "end" visited n])
    case empty
    with step show ?thesis by simp
  next
    case (found priority cost path)
    with step show ?thesis by simp
  next
    case (skip priority cost node path)
    from Continue_triple[OF step[unfolded skip(5)]]
    have s: "heap' = remove1 (smallest heap) heap" "visited' = visited" by simp_all
    from skip hv have "(f, g, hd suf, p) \<noteq> smallest heap" by auto
    with i(3) have "(f, g, hd suf, p) \<in> set (remove1 (smallest heap) heap)" by simp
    with i s show ?thesis by blast
  next
    case (raise priority cost node path)
    with step show ?thesis by simp
  next
    case (expand priority cost node path)
    from Continue_triple[OF step[unfolded expand(6)]]
    have s: "heap' = remove1 (smallest heap) heap @
                     map (\<lambda>nb. (cost + 1 + heuristic end nb, cost + 1, nb, path @ [nb]))
                       (filter (is_move maze) (a_star_neighbors node))"
      "visited' = insert node visited" by simp_all
    show ?thesis
    proof (cases "node \<in> set suf")
      case True
      from w i(1) have ww: "walk maze (pre @ suf)" "last (pre @ suf) = end" by simp_all
      from this True expand(3) obtain a b where ab: "suf = a @ node # b" "node \<notin> set b" "b \<noteq> []"
        "adjacent node (hd b)" "is_move maze (hd b)" by (rule walk_leaves_node)
      from ab(4,5) s(1)
      have "(cost + 1 + heuristic end (hd b), cost + 1, hd b, path @ [hd b]) \<in> set heap'"
        by (simp add: adjacent_a_star_neighbors)
      moreover from i(1) ab(1) have "w = (pre @ a @ [node]) @ b" by simp
      moreover from i(5) ab(1,2) s(2) have "set b \<inter> visited' = {}" by auto
      moreover have "cost + 1 \<le> int (length (pre @ a @ [node]))"
      proof -
        from expand(1,2) have "(priority, cost, node, path) \<in> set heap" by (metis smallest_in)
        with ok have "entry_ok maze start end (priority, cost, node, path)" by blast
        then have pr: "priority = cost + heuristic end node" by (simp add: entry_ok_def)
        from ok i(3) have "entry_ok maze start end (f, g, hd suf, p)" by blast
        then have fr: "f = g + heuristic end (hd suf)" by (simp add: entry_ok_def)
        from smallest_le[OF i(3)] expand(2) have "priority \<le> f" by (auto dest: entry_le_priority)
        moreover have "heuristic end (hd suf) \<le> heuristic end node + int (length a)"
        proof -
          from ww(1) ab(1) have "walk maze (pre @ (a @ [node]) @ b)" by simp
          from heuristic_along_walk[OF this, of "end"] ab(1) show ?thesis
            by (cases a) simp_all
        qed
        ultimately show ?thesis using pr fr i(4) by simp
      qed
      ultimately show ?thesis using ab(3) by blast
    next
      case False
      with i(2) have "hd suf \<noteq> node" by (metis hd_in_set)
      with expand(2) have "(f, g, hd suf, p) \<noteq> smallest heap" by auto
      with i(3) have "(f, g, hd suf, p) \<in> set (remove1 (smallest heap) heap)" by simp
      with s(1) have "(f, g, hd suf, p) \<in> set heap'" by simp
      moreover from i(5) False s(2) have "set suf \<inter> visited' = {}" by auto
      ultimately show ?thesis using i(1,2,4) by blast
    qed
  qed
qed

lemma a_star_reaches_covers:
  assumes r: "reaches (a_star_body maze end) ([(heuristic end start, 0, start, [start])], {}, 0)
                (heap, visited, n)"
    and w: "walk maze w" "hd w = start" "last w = end"
  shows "\<exists>pre suf f g p. w = pre @ suf \<and> suf \<noteq> [] \<and> (f, g, hd suf, p) \<in> set heap
                \<and> g \<le> int (length pre) \<and> set suf \<inter> visited = {}"
  using r
proof (induction "(heap, visited, n)" arbitrary: heap visited n rule: reaches.induct)
  case reaches_init
  from w have "w = [] @ w \<and> w \<noteq> []
      \<and> (heuristic end start, 0, hd w, [start]) \<in> set [(heuristic end start, 0, start, [start])]
      \<and> (0 :: int) \<le> int (length ([] :: path)) \<and> set w \<inter> {} = {}"
    by (auto dest: walk_not_Nil)
  then show ?case by blast
next
  case (reaches_next t)
  obtain heap0 visited0 n0 where t: "t = (heap0, visited0, n0)" by (cases t)
  from reaches_next(1)[unfolded t] have "\<forall>e \<in> set heap0. entry_ok maze start end e"
    by (rule a_star_reaches_paths)
  with reaches_next(2)[OF t] reaches_next(3)[unfolded t] w(1,3)
  show ?case by (intro a_star_step_covers[of maze "end" heap0 visited0 n0 heap visited n w start])
qed

lemma a_star_shortest_walk:
  assumes "a_star_algorithm maze start end = Some (Inr (path, n))"
    and w: "walk maze w" "hd w = start" "last w = end"
  shows "path \<noteq> [] \<and> length path \<le> length w"
  using assms(1)
proof (cases rule: a_star_result)
  case (exhausted visited)
  from a_star_reaches_covers[OF exhausted(1) w] show ?thesis by simp
next
  case (found heap visited priority cost)
  then have top: "(priority, cost, end, path) \<in> set heap" by (metis smallest_in)
  note ok = a_star_reaches_paths[OF found(1)]
  from ok top have "entry_ok maze start end (priority, cost, end, path)" by blast
  then have e: "walk maze path" "int (length path) = cost + 1" "priority = cost"
    by (simp_all add: entry_ok_def)
  from e(1) have ne: "path \<noteq> []" by (rule walk_not_Nil)
  from a_star_reaches_covers[OF found(1) w] obtain pre suf f g p where
    i: "w = pre @ suf" "suf \<noteq> []" "(f, g, hd suf, p) \<in> set heap" "g \<le> int (length pre)"
    by blast
  from ok i(3) have "entry_ok maze start end (f, g, hd suf, p)" by blast
  then have fr: "f = g + heuristic end (hd suf)" by (simp add: entry_ok_def)
  from smallest_le[OF i(3)] found(3) have "priority \<le> f" by (auto dest: entry_le_priority)
  moreover have "heuristic end (hd suf) \<le> int (length suf) - 1"
  proof -
    from w(1) i(1) have "walk maze (pre @ suf @ [])" by simp
    from heuristic_along_walk[OF this i(2), of "end"] w(3) i(1,2) show ?thesis by simp
  qed
  ultimately have "cost \<le> int (length pre) + int (length suf) - 1" using e(3) fr i(4) by simp
  with e(2) i(1) have "length path \<le> length w" by simp
  with ne show ?thesis by simp
qed

section \<open>Searches that stay inside the grid\<close>

lemma closed_region_moves:
  assumes "closed_region maze end S" and "v \<in> S" and "v \<noteq> end" and "adjacent v nb"
  shows "in_range maze nb" and "is_move maze nb \<Longrightarrow> nb \<in> S"
  using assms unfolding closed_region_def by blast+

lemma region_walk_grid_path:
  assumes "closed_region maze end S" and "walk maze p" and "set p \<subseteq> S"
  shows "grid_path maze p"
proof (rule walk_grid_path[OF assms(2)])
  from assms(2) have "p \<noteq> []" by (rule walk_not_Nil)
  then have "hd p \<in> S" using assms(3) by (auto dest: hd_in_set)
  with assms(1) show "open_cell maze (hd p)" by (simp add: closed_region_def)
  show "\<forall>c \<in> set p. 0 \<le> fst c \<and> 0 \<le> snd c"
    using assms(1,3) by (auto simp: closed_region_def open_cell_def in_grid_def)
qed

text \<open>From a start inside a closed region, every path of the frontier stays inside it.\<close>

lemma dfs_step_region:
  assumes step: "dfs_body maze end (stack, visited, n) = Continue (stack', visited', n')"
    and c: "closed_region maze end S"
    and paths: "\<forall>(v, p) \<in> set stack. walk maze p \<and> hd p = start \<and> last p = v"
    and inv: "\<forall>(v, p) \<in> set stack. set p \<subseteq> S"
  shows "\<forall>(v, p) \<in> set stack'. set p \<subseteq> S"
proof (cases rule: dfs_body_cases[of stack maze "end" visited n])
  case empty
  with step show ?thesis by simp
next
  case (found path)
  with step show ?thesis by simp
next
  case (skip node path)
  from Continue_triple[OF step[unfolded skip(5)]] have "stack' = butlast stack" by simp
  with inv show ?thesis by (auto dest: in_set_butlastD)
next
  case (raise node path)
  with step show ?thesis by simp
next
  case (expand node path)
  from Continue_triple[OF step[unfolded expand(6)]]
  have s: "stack' = butlast stack @ map (\<lambda>nb. (nb, path @ [nb])) (filter (is_move maze) (dfs_neighbors node))"
    by simp
  from expand(1,2) have top: "(node, path) \<in> set stack" by (metis last_in_set)
  with paths have "walk maze path" "last path = node" by auto
  moreover from top inv have sub: "set path \<subseteq> S" by auto
  ultimately have "node \<in> S" by (metis last_in_set subsetD walk_not_Nil)
  then have nbS: "nb \<in> S" if "nb \<in> set (dfs_neighbors node)" "is_move maze nb" for nb
    using closed_region_moves(2)[OF c _ expand(3)] that by (simp add: adjacent_dfs_neighbors)
  have "set p \<subseteq> S" if "(v, p) \<in> set stack'" for v p
  proof (cases "(v, p) \<in> set (butlast stack)")
    case True
    then have "(v, p) \<in> set stack" by (rule in_set_butlastD)
    with inv show ?thesis by blast
  next
    case False
    with that s obtain nb where "nb \<in> set (dfs_neighbors node)" "is_move maze nb" "p = path @ [nb]"
      by auto
    with nbS sub show ?thesis by simp
  qed
  then show ?thesis by blast
qed

lemma dfs_reaches_region:
  assumes r: "reaches (dfs_body maze end) ([(start, [start])], {}, 0) (stack, visited, n)"
    and c: "closed_region maze end S" and s: "start \<in> S"
  shows "\<forall>(v, p) \<in> set stack. set p \<subseteq> S"
  using r
proof (induction "(stack, visited, n)" arbitrary: stack visited n rule: reaches.induct)
  case reaches_init
  with s show ?case by simp
next
  case (reaches_next t)
  obtain stack0 visited0 n0 where t: "t = (stack0, visited0, n0)" by (cases t)
  from reaches_next(1)[unfolded t] have "\<forall>(v, p) \<in> set stack0. walk maze p \<and> hd p = start \<and> last p = v"
    by (rule dfs_reaches_paths)
  with reaches_next(2)[OF t] reaches_next(3)[unfolded t] c
  show ?case by (intro dfs_step_region[of maze "end" stack0 visited0 n0 stack visited n S start])
qed

lemma dfs_region_no_raise:
  assumes r: "reaches (dfs_body maze end) ([(start, [start])], {}, 0) (stack, visited, n)"
    and c: "closed_region maze end S" and s: "start \<in> S"
  shows "dfs_body maze end (stack, visited, n) \<noteq> Stop (Inl e)"
proof (cases rule: dfs_body_cases[of stack maze "end" visited n])
  case (raise node path)
  from raise(1,2) have top: "(node, path) \<in> set stack" by (metis last_in_set)
  with dfs_reaches_paths[OF r] have "walk maze path" "last path = node" by auto
  moreover from top dfs_reaches_region[OF r c s] have "set path \<subseteq> S" by auto
  ultimately have "node \<in> S" by (metis last_in_set subsetD walk_not_Nil)
  with closed_region_moves(1)[OF c _ raise(3)] raise(5) show ?thesis
    by (auto simp: adjacent_dfs_neighbors)
qed simp_all

lemma dfs_region_returns:
  assumes c: "closed_region maze end S" and s: "start \<in> S"
  shows "\<exists>path n. dfs_algorithm maze start end = Some (Inr (path, n))
           \<and> (path \<noteq> [] \<longrightarrow> grid_path maze path \<and> hd path = start \<and> last path = end)"
proof -
  from dfs_terminates obtain r where r: "dfs_algorithm maze start end = Some r" by blast
  then obtain t where t: "reaches (dfs_body maze end) ([(start, [start])], {}, 0) t"
    "dfs_body maze end t = Stop r"
    unfolding dfs_algorithm_def by (blast dest: run_loop_reaches)
  obtain stack visited k where st: "t = (stack, visited, k)" by (cases t)
  from dfs_region_no_raise[OF t(1)[unfolded st] c s] t(2) st obtain path n where pn: "r = Inr (path, n)"
    by (cases r) auto
  have "grid_path maze path \<and> hd path = start \<and> last path = end" if ne: "path \<noteq> []"
  proof -
    from r pn have "dfs_algorithm maze start end = Some (Inr (path, n))" by simp
    then show ?thesis
    proof (cases rule: dfs_result)
      case (exhausted visited)
      with ne show ?thesis by simp
    next
      case (found stack visited)
      then have top: "(end, path) \<in> set stack" by (metis last_in_set)
      with dfs_reaches_paths[OF found(1)] have w: "walk maze path" "hd path = start" "last path = end"
        by auto
      from top dfs_reaches_region[OF found(1) c s] have "set path \<subseteq> S" by auto
      with region_walk_grid_path[OF c w(1)] w show ?thesis by simp
    qed
  qed
  with r pn show ?thesis by blast
qed

lemma bfs_step_region:
  assumes step: "bfs_body maze end (queue, visited, n) = Continue (queue', visited', n')"
    and c: "closed_region maze end S"
    and paths: "\<forall>(v, p) \<in> set queue. walk maze p \<and> hd p = start \<and> last p = v"
    and inv: "\<forall>(v, p) \<in> set queue. set p \<subseteq> S"
  shows "\<forall>(v, p) \<in> set queue'. set p \<subseteq> S"
proof (cases rule: bfs_body_cases[of queue maze "end" visited n])
  case empty
  with step show ?thesis by simp
next
  case (found path)
  with step show ?thesis by simp
next
  case (skip node path)
  from Continue_triple[OF step[unfolded skip(5)]] have "queue' = tl queue" by simp
  with inv show ?thesis by (auto dest: in_tl)
next
  case (raise node path)
  with step show ?thesis by simp
next
  case (expand node path)
  from Continue_triple[OF step[unfolded expand(6)]]
  have s: "queue' = tl queue @ map (\<lambda>nb. (nb, path @ [nb])) (filter (\<lambda>nb. is_move maze nb \<and> nb \<notin> insert node visited) (bfs_neighbors node))"
    by simp
  from expand(1,2) have top: "(node, path) \<in> set queue" by (metis hd_in_set)
  with paths have "walk maze path" "last path = node" by auto
  moreover from top inv have sub: "set path \<subseteq> S" by auto
  ultimately have "node \<in> S" by (metis last_in_set subsetD walk_not_Nil)
  then have nbS: "nb \<in> S" if "nb \<in> set (bfs_neighbors node)" "is_move maze nb" for nb
    using closed_region_moves(2)[OF c _ expand(3)] that by (simp add: adjacent_bfs_neighbors)
  have "set p \<subseteq> S" if "(v, p) \<in> set queue'" for v p
  proof (cases "(v, p) \<in> set (tl queue)")
    case True
    then have "(v, p) \<in> set queue" by (rule in_tl)
    with inv show ?thesis by blast
  next
    case False
    with that s obtain nb where "nb \<in> set (bfs_neighbors node)" "is_move maze nb" "p = path @ [nb]"
      by auto
    with nbS sub show ?thesis by simp
  qed
  then show ?thesis by blast
qed

lemma bfs_reaches_region:
  assumes r: "reaches (bfs_body maze end) ([(start, [start])], {}, 0) (queue, visited, n)"
    and c: "closed_region maze end S" and s: "start \<in> S"
  shows "\<forall>(v, p) \<in> set queue. set p \<subseteq> S"
  using r
proof (induction "(queue, visited, n)" arbitrary: queue visited n rule: reaches.induct)
  case reaches_init
  with s show ?case by simp
next
  case (reaches_next t)
  obtain queue0 visited0 n0 where t: "t = (queue0, visited0, n0)" by (cases t)
  from reaches_next(1)[unfolded t] have "\<forall>(v, p) \<in> set queue0. walk maze p \<and> hd p = start \<and> last p = v"
    by (rule bfs_reaches_paths)
  with reaches_next(2)[OF t] reaches_next(3)[unfolded t] c
  show ?case by (intro bfs_step_region[of maze "end" queue0 visited0 n0 queue visited n S start])
qed

lemma bfs_region_no_raise:
  assumes r: "reaches (bfs_body maze end) ([(start, [start])], {}, 0) (queue, visited, n)"
    and c: "closed_region maze end S" and s: "start \<in> S"
  shows "bfs_body maze end (queue, visited, n) \<noteq> Stop (Inl e)"
proof (cases rule: bfs_body_cases[of queue maze "end" visited n])
  case (raise node path)
  from raise(1,2) have top: "(node, path) \<in> set queue" by (metis hd_in_set)
  with bfs_reaches_paths[OF r] have "walk maze path" "last path = node" by auto
  moreover from top bfs_reaches_region[OF r c s] have "set path \<subseteq> S" by auto
  ultimately have "node \<in> S" by (metis last_in_set subsetD walk_not_Nil)
  with closed_region_moves(1)[OF c _ raise(3)] raise(5) show ?thesis
    by (auto simp: adjacent_bfs_neighbors)
qed simp_all

lemma bfs_region_returns:
  assumes c: "closed_region maze end S" and s: "start \<in> S"
  shows "\<exists>path n. bfs_algorithm maze start end = Some (Inr (path, n))
           \<and> (path \<noteq> [] \<longrightarrow> grid_path maze path \<and> hd path = start \<and> last path = end)"
proof -
  from bfs_terminates obtain r where r: "bfs_algorithm maze start end = Some r" by blast
  then obtain t where t: "reaches (bfs_body maze end) ([(start, [start])], {}, 0) t"
    "bfs_body maze end t = Stop r"
    unfolding bfs_algorithm_def by (blast dest: run_loop_reaches)
  obtain queue visited k where st: "t = (queue, visited, k)" by (cases t)
  from bfs_region_no_raise[OF t(1)[unfolded st] c s] t(2) st obtain path n where pn: "r = Inr (path, n)"
    by (cases r) auto
  have "grid_path maze path \<and> hd path = start \<and> last path = end" if ne: "path \<noteq> []"
  proof -
    from r pn have "bfs_algorithm maze start end = Some (Inr (path, n))" by simp
    then show ?thesis
    proof (cases rule: bfs_result)
      case (exhausted visited)
      with ne show ?thesis by simp
    next
      case (found queue visited)
      then have top: "(end, path) \<in> set queue" by (metis hd_in_set)
      with bfs_reaches_paths[OF found(1)] have w: "walk maze path" "hd path = start" "last path = end"
        by auto
      from top bfs_reaches_region[OF found(1) c s] have "set path \<subseteq> S" by auto
      with region_walk_grid_path[OF c w(1)] w show ?thesis by simp
    qed
  qed
  with r pn show ?thesis by blast
qed

lemma in_remove1: "x \<in> set (remove1 y xs) \<Longrightarrow> x \<in> set xs"
  using set_remove1_subset[of y xs] by blast

lemma a_star_step_region:
  assumes step: "a_star_body maze end (heap, visited, n) = Continue (heap', visited', n')"
    and c: "closed_region maze end S"
    and paths: "\<forall>e \<in> set heap. entry_ok maze start end e"
    and inv: "\<forall>(f, g, v, p) \<in> set heap. set p \<subseteq> S"
  shows "\<forall>(f, g, v, p) \<in> set heap'. set p \<subseteq> S"
proof (cases rule: a_star_body_cases[of heap maze "end" visited n])
  case empty
  with step show ?thesis by simp
next
  case (found priority cost path)
  with step show ?thesis by simp
next
  case (skip priority cost node path)
  from Continue_triple[OF step[unfolded skip(5)]] have h: "heap' = remove1 (smallest heap) heap" by simp
  have "set p \<subseteq> S" if "(f, g, v, p) \<in> set heap'" for f g v p
  proof -
    from that h have "(f, g, v, p) \<in> set heap" by (auto dest: in_remove1)
    with inv show ?thesis by blast
  qed
  then show ?thesis by blast
next
  case (raise priority cost node path)
  with step show ?thesis by simp
next
  case (expand priority cost node path)
  from Continue_triple[OF step[unfolded expand(6)]]
  have s: "heap' = remove1 (smallest heap) heap @
                     map (\<lambda>nb. (cost + 1 + heuristic end nb, cost + 1, nb, path @ [nb]))
                       (filter (is_move maze) (a_star_neighbors node))"
    by simp
  from expand(1,2) have top: "(priority, cost, node, path) \<in> set heap" by (metis smallest_in)
  with paths have "entry_ok maze start end (priority, cost, node, path)" by blast
  then have "walk maze path" "last path = node" by (simp_all add: entry_ok_def)
  moreover from top inv have sub: "set path \<subseteq> S" by auto
  ultimately have "node \<in> S" by (metis last_in_set subsetD walk_not_Nil)
  then have nbS: "nb \<in> S" if "nb \<in> set (a_star_neighbors node)" "is_move maze nb" for nb
    using closed_region_moves(2)[OF c _ expand(3)] that by (simp add: adjacent_a_star_neighbors)
  have "set p \<subseteq> S" if "(f, g, v, p) \<in> set heap'" for f g v p
  proof (cases "(f, g, v, p) \<in> set (remove1 (smallest heap) heap)")
    case True
    then have "(f, g, v, p) \<in> set heap" by (rule in_remove1)
    with inv show ?thesis by blast
  next
    case False
    with that s obtain nb where "nb \<in> set (a_star_neighbors node)" "is_move maze nb" "p = path @ [nb]"
      by auto
    with nbS sub show ?thesis by simp
  qed
  then show ?thesis by blast
qed

lemma a_star_reaches_region:
  assumes r: "reaches (a_star_body maze end) ([(heuristic end start, 0, start, [start])], {}, 0)
                (heap, visited, n)"
    and c: "closed_region maze end S" and s: "start \<in> S"
  shows "\<forall>(f, g, v, p) \<in> set heap. set p \<subseteq> S"
  using r
proof (induction "(heap, visited, n)" arbitrary: heap visited n rule: reaches.induct)
  case reaches_init
  with s show ?case by simp
next
  case (reaches_next t)
  obtain heap0 visited0 n0 where t: "t = (heap0, visited0, n0)" by (cases t)
  from reaches_next(1)[unfolded t] have "\<forall>e \<in> set heap0. entry_ok maze start end e"
    by (rule a_star_reaches_paths)
  with reaches_next(2)[OF t] reaches_next(3)[unfolded t] c
  show ?case by (intro a_star_step_region[of maze "end" heap0 visited0 n0 heap visited n S start])
qed

lemma a_star_region_no_raise:
  assumes r: "reaches (a_star_body maze end) ([(heuristic end start, 0, start, [start])], {}, 0)
                (heap, visited, n)"
    and c: "closed_region maze end S" and s: "start \<in> S"
  shows "a_star_body maze end (heap, visited, n) \<noteq> Stop (Inl e)"
proof (cases rule: a_star_body_cases[of heap maze "end" visited n])
  case (raise priority cost node path)
  from raise(1,2) have top: "(priority, cost, node, path) \<in> set heap" by (metis smallest_in)
  with a_star_reaches_paths[OF r] have "entry_ok maze start end (priority, cost, node, path)" by blast
  then have "walk maze path" "last path = node" by (simp_all add: entry_ok_def)
  moreover from top a_star_reaches_region[OF r c s] have "set path \<subseteq> S" by auto
  ultimately have "node \<in> S" by (metis last_in_set subsetD walk_not_Nil)
  with closed_region_moves(1)[OF c _ raise(3)] raise(5) show ?thesis
    by (auto simp: adjacent_a_star_neighbors)
qed simp_all

lemma a_star_region_returns:
  assumes c: "closed_region maze end S" and s: "start \<in> S"
  shows "\<exists>path n. a_star_algorithm maze start end = Some (Inr (path, n))
           \<and> (path \<noteq> [] \<longrightarrow> grid_path maze path \<and> hd path = start \<and> last path = end)"
proof -
  from a_star_terminates obtain r where r: "a_star_algorithm maze start end = Some r" by blast
  then obtain t where t: "reaches (a_star_body maze end) ([(heuristic end start, 0, start, [start])], {}, 0) t"
    "a_star_body maze end t = Stop r"
    unfolding a_star_algorithm_def by (blast dest: run_loop_reaches)
  obtain heap visited k where st: "t = (heap, visited, k)" by (cases t)
  from a_star_region_no_raise[OF t(1)[unfolded st] c s] t(2) st obtain path n where pn: "r = Inr (path, n)"
    by (cases r) auto
  have "grid_path maze path \<and> hd path = start \<and> last path = end" if ne: "path \<noteq> []"
  proof -
    from r pn have "a_star_algorithm maze start end = Some (Inr (path, n))" by simp
    then show ?thesis
    proof (cases rule: a_star_result)
      case (exhausted visited)
      with ne show ?thesis by simp
    next
      case (found heap visited priority cost)
      then have top: "(priority, cost, end, path) \<in> set heap" by (metis smallest_in)
      with a_star_reaches_paths[OF found(1)] have "entry_ok maze start end (priority, cost, end, path)"
        by blast
      then have w: "walk maze path" "hd path = start" "last path = end"
        by (simp_all add: entry_ok_def)
      from top a_star_reaches_region[OF found(1) c s] have "set path \<subseteq> S" by auto
      with region_walk_grid_path[OF c w(1)] w show ?thesis by simp
    qed
  qed
  with r pn show ?thesis by blast
qed

section \<open>Three concrete mazes\<close>

lemma wall_row_unreachable: "\<not> grid_reachable [''-#-#'', ''####'', ''---#''] (0, 0) (0, 2)"
proof
  let ?m = "[''-#-#'', ''####'', ''---#'']"
  assume "grid_reachable ?m (0, 0) (0, 2)"
  then obtain w where w: "grid_path ?m w" "hd w = (0, 0)" "last w = (0, 2)"
    by (auto simp: grid_reachable_def)
  have "\<forall>a \<in> {(0 :: int, 0 :: int)}. \<forall>nb \<in> set (dfs_neighbors a). open_cell ?m nb \<longrightarrow> nb \<in> {(0, 0)}"
    by (simp add: open_cell_def in_grid_def)
  from grid_path_stays[OF this w(1)] w(2) have "set w \<subseteq> {(0, 0)}" by simp
  moreover from w(1) have "w \<noteq> []" by (rule grid_path_not_Nil)
  then have "last w \<in> set w" by (rule last_in_set)
  ultimately show False using w(3) by auto
qed

lemma five_row_open_cells:
  assumes "open_cell [''-#-#'', ''-#-#'', ''---#'', ''####'', ''---#''] a"
  shows "a \<in> {(0, 0), (0, 2), (1, 0), (1, 2), (2, 0), (2, 1), (2, 2), (4, 0), (4, 1), (4, 2)}"
proof -
  obtain r c where a: "a = (r, c)" by (cases a)
  from assms a have r: "r = 0 \<or> r = 1 \<or> r = 2 \<or> r = 3 \<or> r = 4"
    by (auto simp: open_cell_def in_grid_def)
  from assms a r have c: "c = 0 \<or> c = 1 \<or> c = 2 \<or> c = 3"
    by (auto simp: open_cell_def in_grid_def)
  from assms a r c show ?thesis
    by (elim disjE) (simp_all add: open_cell_def in_grid_def)
qed

lemma five_row_distance:
  "grid_distance [''-#-#'', ''-#-#'', ''---#'', ''####'', ''---#''] (0, 0) (0, 2) = 6"
proof (rule grid_distance_eq)
  let ?m = "[''-#-#'', ''-#-#'', ''---#'', ''####'', ''---#'']"
  let ?w = "[(0, 0), (1, 0), (2, 0), (2, 1), (2, 2), (1, 2), (0, 2)] :: path"
  show "grid_path ?m ?w" by (simp add: open_cell_def in_grid_def adjacent_def)
  show "hd ?w = (0, 0)" "last ?w = (0, 2)" "edge_count ?w = 6" by (simp_all add: edge_count_def)
  fix v assume v: "grid_path ?m v" "hd v = (0, 0)" "last v = (0, 2)"
  let ?d = "\<lambda>p :: coord. if p = (1, 0) then 1 else if p = (2, 0) then 2 else if p = (2, 1) then 3
              else if p = (2, 2) then 4 else if p = (1, 2) then 5 else if p = (0, 2) then 6
              else (0 :: nat)"
  let ?S = "{(0, 0), (0, 2), (1, 0), (1, 2), (2, 0), (2, 1), (2, 2), (4, 0), (4, 1), (4, 2)} :: coord set"
  have lip: "\<forall>a \<in> ?S. \<forall>nb \<in> set (dfs_neighbors a). nb \<in> ?S \<longrightarrow> ?d nb \<le> Suc (?d a)"
    by simp
  from grid_path_potential[of ?m ?S ?d, OF five_row_open_cells lip v(1)] v(2,3)
  show "6 \<le> edge_count v" by simp
qed

lemma bordered_region:
  "closed_region [''#-###'', ''#---#'', ''###-#''] (2, 3) {(0, 1), (1, 1), (1, 2), (1, 3), (2, 3)}"
  unfolding closed_region_def adjacent_dfs_neighbors[symmetric]
  by (simp add: open_cell_def in_grid_def in_range_def is_move_def cell_def py_index_def)

section \<open>Empty paths and reachability\<close>

lemma edge_count_mono: "length p \<le> length w \<Longrightarrow> edge_count p \<le> edge_count w"
  by (simp add: edge_count_def)

lemma walk_reachableI: "walk maze w \<Longrightarrow> hd w = start \<Longrightarrow> last w = end \<Longrightarrow> walk_reachable maze start end"
  unfolding walk_reachable_def by blast

lemma bfs_finds_reachable:
  assumes "bfs_algorithm maze start end = Some (Inr (path, n))"
    and "walk_reachable maze start end"
  shows "path \<noteq> []"
  using assms bfs_shortest_walk unfolding walk_reachable_def by blast

lemma a_star_finds_reachable:
  assumes "a_star_algorithm maze start end = Some (Inr (path, n))"
    and "walk_reachable maze start end"
  shows "path \<noteq> []"
  using assms a_star_shortest_walk unfolding walk_reachable_def by blast

lemma dfs_empty_iff:
  assumes "dfs_algorithm maze start end = Some (Inr (path, n))"
  shows "0 \<le> n \<and> (path = [] \<longleftrightarrow> \<not> walk_reachable maze start end)"
proof -
  from dfs_count_positive[OF assms] have "0 \<le> n" by simp
  moreover have "path \<noteq> []" if "walk_reachable maze start end"
    using assms that by (rule dfs_finds_reachable)
  moreover have "walk_reachable maze start end" if "path \<noteq> []"
    using dfs_returns_walk[OF assms that] by (auto intro: walk_reachableI)
  ultimately show ?thesis by blast
qed

lemma bfs_empty_iff:
  assumes "bfs_algorithm maze start end = Some (Inr (path, n))"
  shows "0 \<le> n \<and> (path = [] \<longleftrightarrow> \<not> walk_reachable maze start end)"
proof -
  from bfs_count_positive[OF assms] have "0 \<le> n" by simp
  moreover have "path \<noteq> []" if "walk_reachable maze start end"
    using assms that by (rule bfs_finds_reachable)
  moreover have "walk_reachable maze start end" if "path \<noteq> []"
    using bfs_returns_walk[OF assms that] by (auto intro: walk_reachableI)
  ultimately show ?thesis by blast
qed

lemma a_star_empty_iff:
  assumes "a_star_algorithm maze start end = Some (Inr (path, n))"
  shows "0 \<le> n \<and> (path = [] \<longleftrightarrow> \<not> walk_reachable maze start end)"
proof -
  from a_star_count_positive[OF assms] have "0 \<le> n" by simp
  moreover have "path \<noteq> []" if "walk_reachable maze start end"
    using assms that by (rule a_star_finds_reachable)
  moreover have "walk_reachable maze start end" if "path \<noteq> []"
    using a_star_returns_walk[OF assms that] by (auto intro: walk_reachableI)
  ultimately show ?thesis by blast
qed

lemma result_or_error:
  fixes algo :: "result option"
  assumes "\<exists>r. algo = Some r"
    and "\<And>path n. algo = Some (Inr (path, n)) \<Longrightarrow> P path n"
  shows "\<exists>r. algo = Some r \<and> (r = Inl IndexError \<or> (\<exists>path n. r = Inr (path, n) \<and> P path n))"
proof -
  from assms(1) obtain r where r: "algo = Some r" by blast
  show ?thesis
  proof (cases r)
    case (Inl e)
    with r show ?thesis by simp
  next
    case (Inr pn)
    obtain path n where "pn = (path, n)" by (cases pn)
    with r Inr assms(2)[of path n] show ?thesis by simp
  qed
qed

lemma region_empty_iff:
  fixes algo :: "result option"
  assumes ret: "\<exists>path n. algo = Some (Inr (path, n))
           \<and> (path \<noteq> [] \<longrightarrow> grid_path maze path \<and> hd path = start \<and> last path = end)"
    and iff: "\<And>path n. algo = Some (Inr (path, n)) \<Longrightarrow>
           0 \<le> n \<and> (path = [] \<longleftrightarrow> \<not> walk_reachable maze start end)"
  shows "\<exists>path n. algo = Some (Inr (path, n)) \<and> 0 \<le> n
           \<and> (path = [] \<longleftrightarrow> \<not> grid_reachable maze start end)"
proof -
  from ret obtain path n where r: "algo = Some (Inr (path, n))"
    and g: "path \<noteq> [] \<longrightarrow> grid_path maze path \<and> hd path = start \<and> last path = end" by blast
  from iff[OF r] have n: "0 \<le> n" and w: "path = [] \<longleftrightarrow> \<not> walk_reachable maze start end" by simp_all
  have "path = [] \<longleftrightarrow> \<not> grid_reachable maze start end"
  proof
    assume "path = []"
    with w show "\<not> grid_reachable maze start end" by (auto dest: grid_reachable_walk_reachable)
  next
    assume "\<not> grid_reachable maze start end"
    with g show "path = []" unfolding grid_reachable_def by blast
  qed
  with r n show ?thesis by blast
qed

lemma shortest_among_walks:
  fixes algo :: "result option"
  assumes r: "algo = Some (Inr (path, n))"
    and short: "\<And>w. walk maze w \<Longrightarrow> hd w = start \<Longrightarrow> last w = end \<Longrightarrow>
                  path \<noteq> [] \<and> length path \<le> length w"
    and ret: "path \<noteq> [] \<Longrightarrow> walk maze path \<and> hd path = start \<and> last path = end"
  shows "(\<forall>w. walk maze w \<and> hd w = start \<and> last w = end \<longrightarrow>
            path \<noteq> [] \<and> edge_count path \<le> edge_count w)
       \<and> (grid_reachable maze start end \<longrightarrow>
            path \<noteq> [] \<and> walk maze path \<and> hd path = start \<and> last path = end
            \<and> edge_count path \<le> grid_distance maze start end)
       \<and> (grid_path maze path \<longrightarrow> edge_count path = grid_distance maze start end)"
proof (intro conjI allI impI)
  fix w assume "walk maze w \<and> hd w = start \<and> last w = end"
  with short[of w] show "path \<noteq> []" and "edge_count path \<le> edge_count w"
    by (simp_all add: edge_count_mono)
next
  assume "grid_reachable maze start end"
  from grid_distance_attained[OF this] obtain w where
    w: "grid_path maze w" "hd w = start" "last w = end" "edge_count w = grid_distance maze start end"
    by blast
  from short[OF grid_path_walk[OF w(1)] w(2,3)] have p: "path \<noteq> []" "length path \<le> length w"
    by simp_all
  from p(1) show "path \<noteq> []" .
  from ret[OF p(1)] show "walk maze path" "hd path = start" "last path = end" by simp_all
  from p(2) w(4) show "edge_count path \<le> grid_distance maze start end"
    by (metis edge_count_mono)
next
  assume g: "grid_path maze path"
  then have ne: "path \<noteq> []" by (rule grid_path_not_Nil)
  from ret[OF ne] have hl: "hd path = start" "last path = end" by simp_all
  from grid_distance_le[OF g hl] have 1: "grid_distance maze start end \<le> edge_count path" .
  from g hl have "grid_reachable maze start end" unfolding grid_reachable_def by blast
  from grid_distance_attained[OF this] obtain w where
    w: "grid_path maze w" "hd w = start" "last w = end" "edge_count w = grid_distance maze start end"
    by blast
  from short[OF grid_path_walk[OF w(1)] w(2,3)] w(4) have "edge_count path \<le> grid_distance maze start end"
    by (metis edge_count_mono)
  with 1 show "edge_count path = grid_distance maze start end" by simp
qed

lemma region_shortest:
  fixes algo :: "result option"
  assumes ret: "\<exists>path n. algo = Some (Inr (path, n))
           \<and> (path \<noteq> [] \<longrightarrow> grid_path maze path \<and> hd path = start \<and> last path = end)"
    and short: "\<And>path n w. algo = Some (Inr (path, n)) \<Longrightarrow> walk maze w \<Longrightarrow> hd w = start \<Longrightarrow>
                  last w = end \<Longrightarrow> path \<noteq> [] \<and> length path \<le> length w"
    and reach: "grid_reachable maze start end"
  shows "\<exists>path n. algo = Some (Inr (path, n)) \<and> grid_path maze path \<and> hd path = start
           \<and> last path = end \<and> edge_count path = grid_distance maze start end"
proof -
  from ret obtain path n where r: "algo = Some (Inr (path, n))"
    and g: "path \<noteq> [] \<longrightarrow> grid_path maze path \<and> hd path = start \<and> last path = end" by blast
  from grid_distance_attained[OF reach] obtain w where
    w: "grid_path maze w" "hd w = start" "last w = end" "edge_count w = grid_distance maze start end"
    by blast
  from short[OF r grid_path_walk[OF w(1)] w(2,3)] have p: "path \<noteq> []" "length path \<le> length w"
    by simp_all
  with g have gp: "grid_path maze path" "hd path = start" "last path = end" by simp_all
  from p(2) w(4) have "edge_count path \<le> grid_distance maze start end" by (metis edge_count_mono)
  with grid_distance_le[OF gp] have "edge_count path = grid_distance maze start end" by simp
  with r gp show ?thesis by blast
qed

lemma bfs_shortest_returned:
  assumes r: "bfs_algorithm maze start end = Some (Inr (path, n))"
  shows "(\<forall>w. walk maze w \<and> hd w = start \<and> last w = end \<longrightarrow>
            path \<noteq> [] \<and> edge_count path \<le> edge_count w)
    \<and> (grid_reachable maze start end \<longrightarrow>
            path \<noteq> [] \<and> walk maze path \<and> hd path = start \<and> last path = end
            \<and> edge_count path \<le> grid_distance maze start end)
    \<and> (grid_path maze path \<longrightarrow> edge_count path = grid_distance maze start end)"
  using r
proof (rule shortest_among_walks)
  show "path \<noteq> [] \<and> length path \<le> length w"
    if "walk maze w" "hd w = start" "last w = end" for w
    using r that by (rule bfs_shortest_walk)
  show "walk maze path \<and> hd path = start \<and> last path = end" if "path \<noteq> []"
    using r that by (rule bfs_returns_walk)
qed

lemma bfs_shortest_in_region:
  assumes "closed_region maze end S \<and> start \<in> S \<and> grid_reachable maze start end"
  shows "\<exists>path n. bfs_algorithm maze start end = Some (Inr (path, n)) \<and> grid_path maze path
         \<and> hd path = start \<and> last path = end
         \<and> edge_count path = grid_distance maze start end"
proof -
  from assms have c: "closed_region maze end S" and s: "start \<in> S"
    and g: "grid_reachable maze start end" by simp_all
  show ?thesis
    using bfs_region_returns[OF c s] _ g
  proof (rule region_shortest)
    show "path \<noteq> [] \<and> length path \<le> length w"
      if "bfs_algorithm maze start end = Some (Inr (path, n))" "walk maze w" "hd w = start" "last w = end"
      for path n w
      using that by (rule bfs_shortest_walk)
  qed
qed

lemma bfs_shortest_or_error:
  assumes g: "grid_reachable maze start end"
  shows "\<exists>r. bfs_algorithm maze start end = Some r \<and>
           (r = Inl IndexError \<or>
            (\<exists>path n. r = Inr (path, n) \<and>
               (path \<noteq> [] \<and> walk maze path \<and> hd path = start \<and> last path = end
                \<and> edge_count path \<le> grid_distance maze start end)))"
proof (rule result_or_error[OF bfs_terminates])
  fix path n
  assume "bfs_algorithm maze start end = Some (Inr (path, n))"
  from bfs_shortest_returned[OF this] g
  show "path \<noteq> [] \<and> walk maze path \<and> hd path = start \<and> last path = end
                \<and> edge_count path \<le> grid_distance maze start end" by blast
qed

lemma a_star_shortest_returned:
  assumes r: "a_star_algorithm maze start end = Some (Inr (path, n))"
  shows "(\<forall>w. walk maze w \<and> hd w = start \<and> last w = end \<longrightarrow>
            path \<noteq> [] \<and> edge_count path \<le> edge_count w)
    \<and> (grid_reachable maze start end \<longrightarrow>
            path \<noteq> [] \<and> walk maze path \<and> hd path = start \<and> last path = end
            \<and> edge_count path \<le> grid_distance maze start end)
    \<and> (grid_path maze path \<longrightarrow> edge_count path = grid_distance maze start end)"
  using r
proof (rule shortest_among_walks)
  show "path \<noteq> [] \<and> length path \<le> length w"
    if "walk maze w" "hd w = start" "last w = end" for w
    using r that by (rule a_star_shortest_walk)
  show "walk maze path \<and> hd path = start \<and> last path = end" if "path \<noteq> []"
    using r that by (rule a_star_returns_walk)
qed

lemma a_star_shortest_in_region:
  assumes "closed_region maze end S \<and> start \<in> S \<and> grid_reachable maze start end"
  shows "\<exists>path n. a_star_algorithm maze start end = Some (Inr (path, n)) \<and> grid_path maze path
         \<and> hd path = start \<and> last path = end
         \<and> edge_count path = grid_distance maze start end"
proof -
  from assms have c: "closed_region maze end S" and s: "start \<in> S"
    and g: "grid_reachable maze start end" by simp_all
  show ?thesis
    using a_star_region_returns[OF c s] _ g
  proof (rule region_shortest)
    show "path \<noteq> [] \<and> length path \<le> length w"
      if "a_star_algorithm maze start end = Some (Inr (path, n))" "walk maze w" "hd w = start" "last w = end"
      for path n w
      using that by (rule a_star_shortest_walk)
  qed
qed

lemma a_star_shortest_or_error:
  assumes g: "grid_reachable maze start end"
  shows "\<exists>r. a_star_algorithm maze start end = Some r \<and>
           (r = Inl IndexError \<or>
            (\<exists>path n. r = Inr (path, n) \<and>
               (path \<noteq> [] \<and> walk maze path \<and> hd path = start \<and> last path = end
                \<and> edge_count path \<le> grid_distance maze start end)))"
proof (rule result_or_error[OF a_star_terminates])
  fix path n
  assume "a_star_algorithm maze start end = Some (Inr (path, n))"
  from a_star_shortest_returned[OF this] g
  show "path \<noteq> [] \<and> walk maze path \<and> hd path = start \<and> last path = end
                \<and> edge_count path \<le> grid_distance maze start end" by blast
qed

section \<open>Reading a neighbour out of range\<close>

text \<open>
  C1, as the code has it. None of the three functions tests a neighbour's row or column
  before \<open>maze[n_row][n_col]\<close>. Take a pass of a loop body that takes from the frontier a
  node that is not \<open>end\<close> and not yet visited.

  \<^item> If one of the four neighbours has a row or column outside Python's index range (below
    \<open>-len\<close> or at least \<open>len\<close>), the read raises \<open>IndexError\<close> and the search function ends
    with that error.
  \<^item> If all four neighbours are within Python's index range, nothing is raised: the pass
    goes on with the node marked visited, the count one higher, and the frontier extended
    by exactly the neighbours that count as a move (for the breadth-first search, those not
    yet visited).
  \<^item> Reading a coordinate raises exactly when it is outside Python's index range. A row or
    column in \<open>[-len, 0)\<close> is inside: it is read from the end of the list, at the index
    taken modulo the length, and the coordinate counts as a move exactly when that cell is
    \<open>-\<close>.
\<close>

theorem out_of_range_neighbor_raises:
  assumes "node \<noteq> end" and "node \<notin> visited"
  shows
    "((\<exists>nb. adjacent node nb \<and> \<not> in_range maze nb) \<longrightarrow>
        run_loop (dfs_body maze end) (stack @ [(node, path)], visited, n) = Some (Inl IndexError)
      \<and> run_loop (bfs_body maze end) ((node, path) # queue, visited, n) = Some (Inl IndexError)
      \<and> (heap \<noteq> [] \<and> smallest heap = (priority, cost, node, path) \<longrightarrow>
           run_loop (a_star_body maze end) (heap, visited, n) = Some (Inl IndexError)))
   \<and> ((\<forall>nb. adjacent node nb \<longrightarrow> in_range maze nb) \<longrightarrow>
        dfs_body maze end (stack @ [(node, path)], visited, n) =
          Continue (stack @ map (\<lambda>nb. (nb, path @ [nb])) (filter (is_move maze) (dfs_neighbors node)),
                    insert node visited, n + 1)
      \<and> bfs_body maze end ((node, path) # queue, visited, n) =
          Continue (queue @ map (\<lambda>nb. (nb, path @ [nb]))
                              (filter (\<lambda>nb. is_move maze nb \<and> nb \<notin> insert node visited)
                                 (bfs_neighbors node)),
                    insert node visited, n + 1)
      \<and> (heap \<noteq> [] \<and> smallest heap = (priority, cost, node, path) \<longrightarrow>
           a_star_body maze end (heap, visited, n) =
             Continue (remove1 (smallest heap) heap @
                         map (\<lambda>nb. (cost + 1 + heuristic end nb, cost + 1, nb, path @ [nb]))
                           (filter (is_move maze) (a_star_neighbors node)),
                       insert node visited, n + 1)))
   \<and> (cell maze p = Inl IndexError \<longleftrightarrow> \<not> in_range maze p)
   \<and> (in_range maze p \<longrightarrow>
        cell maze p =
          Inr (maze ! nat (fst p mod int (length maze))
                    ! nat (snd p mod int (length (maze ! nat (fst p mod int (length maze))))))
      \<and> (is_move maze p \<longleftrightarrow>
           maze ! nat (fst p mod int (length maze))
                ! nat (snd p mod int (length (maze ! nat (fst p mod int (length maze))))) = CHR ''-''))"
proof (intro conjI impI)
  assume bad: "\<exists>nb. adjacent node nb \<and> \<not> in_range maze nb"
  have "dfs_body maze end (stack @ [(node, path)], visited, n) = Stop (Inl IndexError)"
    using bad by (simp add: dfs_body_fresh[OF assms])
  then show "run_loop (dfs_body maze end) (stack @ [(node, path)], visited, n) = Some (Inl IndexError)"
    by (rule run_loop_Stop)
  have "bfs_body maze end ((node, path) # queue, visited, n) = Stop (Inl IndexError)"
    using bad by (simp add: bfs_body_fresh[OF assms])
  then show "run_loop (bfs_body maze end) ((node, path) # queue, visited, n) = Some (Inl IndexError)"
    by (rule run_loop_Stop)
  show "run_loop (a_star_body maze end) (heap, visited, n) = Some (Inl IndexError)"
    if h: "heap \<noteq> [] \<and> smallest heap = (priority, cost, node, path)"
  proof -
    from h have "a_star_body maze end (heap, visited, n) = Stop (Inl IndexError)"
      using bad by (simp add: a_star_body_fresh[OF assms, of heap priority cost path])
    then show ?thesis by (rule run_loop_Stop)
  qed
next
  assume ok: "\<forall>nb. adjacent node nb \<longrightarrow> in_range maze nb"
  show "dfs_body maze end (stack @ [(node, path)], visited, n) =
          Continue (stack @ map (\<lambda>nb. (nb, path @ [nb])) (filter (is_move maze) (dfs_neighbors node)),
                    insert node visited, n + 1)"
    using ok by (simp add: dfs_body_fresh[OF assms])
  show "bfs_body maze end ((node, path) # queue, visited, n) =
          Continue (queue @ map (\<lambda>nb. (nb, path @ [nb]))
                              (filter (\<lambda>nb. is_move maze nb \<and> nb \<notin> insert node visited)
                                 (bfs_neighbors node)),
                    insert node visited, n + 1)"
    using ok by (simp add: bfs_body_fresh[OF assms])
  show "a_star_body maze end (heap, visited, n) =
             Continue (remove1 (smallest heap) heap @
                         map (\<lambda>nb. (cost + 1 + heuristic end nb, cost + 1, nb, path @ [nb]))
                           (filter (is_move maze) (a_star_neighbors node)),
                       insert node visited, n + 1)"
    if h: "heap \<noteq> [] \<and> smallest heap = (priority, cost, node, path)"
    using h ok by (simp add: a_star_body_fresh[OF assms, of heap priority cost path])
next
  show "cell maze p = Inl IndexError \<longleftrightarrow> \<not> in_range maze p" by (rule cell_error_iff)
next
  assume r: "in_range maze p"
  then show c: "cell maze p =
          Inr (maze ! nat (fst p mod int (length maze))
                    ! nat (snd p mod int (length (maze ! nat (fst p mod int (length maze))))))"
    by (rule cell_wrap)
  show "is_move maze p \<longleftrightarrow>
           maze ! nat (fst p mod int (length maze))
                ! nat (snd p mod int (length (maze ! nat (fst p mod int (length maze))))) = CHR ''-''"
    by (simp add: is_move_def c)
qed

theorem out_of_range_neighbor_raises_witness:
  "adjacent (0, 0) (1, 0) \<and> \<not> in_range [''-#-''] (1, 0)
   \<and> dfs_algorithm [''-#-''] (0, 0) (0, 2) = Some (Inl IndexError)
   \<and> bfs_algorithm [''-#-''] (0, 0) (0, 2) = Some (Inl IndexError)
   \<and> a_star_algorithm [''-#-''] (0, 0) (0, 2) = Some (Inl IndexError)
   \<and> in_range [''-#-#'', ''####'', ''---#''] (- 1, 0)
   \<and> cell [''-#-#'', ''####'', ''---#''] (- 1, 0) = Inr CHR ''-''
   \<and> is_move [''-#-#'', ''####'', ''---#''] (- 1, 0)
   \<and> dfs_body [''-#-#'', ''####'', ''---#''] (0, 2) ([((0, 0), [(0, 0)])], {}, 0)
       = Continue ([((- 1, 0), [(0, 0), (- 1, 0)])], {(0, 0)}, 1)
   \<and> bfs_body [''-#-#'', ''####'', ''---#''] (0, 2) ([((0, 0), [(0, 0)])], {}, 0)
       = Continue ([((- 1, 0), [(0, 0), (- 1, 0)])], {(0, 0)}, 1)
   \<and> a_star_body [''-#-#'', ''####'', ''---#''] (0, 2) ([(2, 0, (0, 0), [(0, 0)])], {}, 0)
       = Continue ([(4, 1, (- 1, 0), [(0, 0), (- 1, 0)])], {(0, 0)}, 1)"
proof -
  have c: "(0 :: int, 0 :: int) \<noteq> (0, 2)" by simp
  have d: "(0 :: int, 0 :: int) \<notin> {}" by simp
  have h: "[(2 :: int, 0 :: int, (0 :: int, 0 :: int), [(0 :: int, 0 :: int)])] \<noteq> []
         \<and> smallest [(2 :: int, 0 :: int, (0 :: int, 0 :: int), [(0 :: int, 0 :: int)])]
             = (2, 0, (0, 0), [(0, 0)])"
    by simp
  have a: "adjacent (0, 0) (1, 0)" by (simp add: adjacent_def)
  have b: "\<not> in_range [''-#-''] (1, 0)" by (simp add: in_range_def)
  from a b have bad: "\<exists>nb. adjacent (0, 0) nb \<and> \<not> in_range [''-#-''] nb" by blast
  note t = out_of_range_neighbor_raises[OF c d,
      where maze = "[''-#-'']" and stack = "[]" and path = "[(0, 0)]" and n = 0 and queue = "[]"
        and heap = "[(2, 0, (0, 0), [(0, 0)])]" and priority = 2 and cost = 0]
  from t bad have 1: "dfs_algorithm [''-#-''] (0, 0) (0, 2) = Some (Inl IndexError)"
    unfolding dfs_algorithm_def by simp
  from t bad have 2: "bfs_algorithm [''-#-''] (0, 0) (0, 2) = Some (Inl IndexError)"
    unfolding bfs_algorithm_def by simp
  from t bad h have 3: "a_star_algorithm [''-#-''] (0, 0) (0, 2) = Some (Inl IndexError)"
    unfolding a_star_algorithm_def heuristic_def by simp
  let ?m = "[''-#-#'', ''####'', ''---#'']"
  have e: "in_range ?m (- 1, 0)" by (simp add: in_range_def py_index_def)
  have ok: "\<forall>nb. adjacent (0, 0) nb \<longrightarrow> in_range ?m nb"
    unfolding adjacent_dfs_neighbors[symmetric] by (simp add: in_range_def py_index_def)
  note u = out_of_range_neighbor_raises[OF c d,
      where maze = ?m and stack = "[]" and path = "[(0, 0)]" and n = 0 and queue = "[]"
        and heap = "[(2, 0, (0, 0), [(0, 0)])]" and priority = 2 and cost = 0 and p = "(- 1, 0)"]
  from u e have 4: "cell ?m (- 1, 0) = Inr CHR ''-''" and 5: "is_move ?m (- 1, 0)"
    by simp_all
  have mv: "\<not> is_move ?m (1, 0)" "\<not> is_move ?m (0, 1)" "\<not> is_move ?m (0, - 1)"
    by (simp_all add: is_move_def cell_def py_index_def)
  from u ok 5 mv have 6: "dfs_body ?m (0, 2) ([((0, 0), [(0, 0)])], {}, 0)
       = Continue ([((- 1, 0), [(0, 0), (- 1, 0)])], {(0, 0)}, 1)"
    by simp
  from u ok 5 mv have 7: "bfs_body ?m (0, 2) ([((0, 0), [(0, 0)])], {}, 0)
       = Continue ([((- 1, 0), [(0, 0), (- 1, 0)])], {(0, 0)}, 1)"
    by simp
  from u ok 5 mv h have 8: "a_star_body ?m (0, 2) ([(2, 0, (0, 0), [(0, 0)])], {}, 0)
       = Continue ([(4, 1, (- 1, 0), [(0, 0), (- 1, 0)])], {(0, 0)}, 1)"
    by (simp add: heuristic_def)
  from a b e 1 2 3 4 5 6 7 8 show ?thesis by blast
qed

text \<open>
  The claim as stated fails on a rectangular grid with \<open>start\<close> and \<open>end\<close> open, the only
  open cells of the first and the last row: the depth-first search first follows the
  wrapped neighbour \<open>(-1, 1)\<close> upwards and then reads row \<open>-4\<close> of a maze of three rows.
\<close>

theorem neighbor_probe_raises:
  "dfs_algorithm [''#-#'', ''#-#'', ''#-#''] (0, 1) (2, 1) = Some (Inl IndexError)"
  by (simp add: search_eval)

section \<open>The path of the breadth-first search\<close>

text \<open>
  C2, as the code has it. When \<open>bfs_algorithm\<close> returns and a walk from \<open>start\<close> to \<open>end\<close>
  exists, the returned path is not empty and has no more edges than any such walk; a walk
  is what the code can build, each step passing the test \<open>maze[row][col] == "-"\<close> with
  negative indices counting from the end. So when \<open>end\<close> is reachable from \<open>start\<close> through
  Open cells, the returned path has at most the true shortest-path edge count, and exactly
  that count whenever the returned path is itself a path through Open cells.

  On a grid where \<open>start\<close> lies in a closed region of Open cells, \<open>bfs_algorithm\<close> returns for
  every reachable \<open>end\<close> a path through Open cells from \<open>start\<close> to \<open>end\<close> whose edge count is
  the true shortest-path edge count.

  On any grid with \<open>end\<close> reachable through Open cells, \<open>bfs_algorithm\<close> either raises
  \<open>IndexError\<close> or returns a non-empty walk from \<open>start\<close> to \<open>end\<close> with at most the true
  shortest-path edge count.
\<close>

theorem bfs_path_is_shortest:
  "(bfs_algorithm maze start end = Some (Inr (path, n)) \<longrightarrow>
      (\<forall>w. walk maze w \<and> hd w = start \<and> last w = end \<longrightarrow>
            path \<noteq> [] \<and> edge_count path \<le> edge_count w)
    \<and> (grid_reachable maze start end \<longrightarrow>
            path \<noteq> [] \<and> walk maze path \<and> hd path = start \<and> last path = end
            \<and> edge_count path \<le> grid_distance maze start end)
    \<and> (grid_path maze path \<longrightarrow> edge_count path = grid_distance maze start end))
   \<and> (closed_region maze end S \<and> start \<in> S \<and> grid_reachable maze start end \<longrightarrow>
      (\<exists>path n. bfs_algorithm maze start end = Some (Inr (path, n)) \<and> grid_path maze path
         \<and> hd path = start \<and> last path = end
         \<and> edge_count path = grid_distance maze start end))
   \<and> (grid_reachable maze start end \<longrightarrow>
      (\<exists>r. bfs_algorithm maze start end = Some r \<and>
           (r = Inl IndexError \<or>
            (\<exists>path n. r = Inr (path, n) \<and>
               (path \<noteq> [] \<and> walk maze path \<and> hd path = start \<and> last path = end
                \<and> edge_count path \<le> grid_distance maze start end)))))"
  by (rule conjI, rule impI, rule bfs_shortest_returned, assumption,
      rule conjI, rule impI, rule bfs_shortest_in_region, assumption,
      rule impI, rule bfs_shortest_or_error, assumption)

theorem bfs_path_is_shortest_witness:
  "closed_region [''#-###'', ''#---#'', ''###-#''] (2, 3) {(0, 1), (1, 1), (1, 2), (1, 3), (2, 3)}
   \<and> (0, 1) \<in> {(0 :: int, 1 :: int), (1, 1), (1, 2), (1, 3), (2, 3)}
   \<and> grid_reachable [''#-###'', ''#---#'', ''###-#''] (0, 1) (2, 3)
   \<and> bfs_algorithm [''#-###'', ''#---#'', ''###-#''] (0, 1) (2, 3)
       = Some (Inr ([(0, 1), (1, 1), (1, 2), (1, 3), (2, 3)], 4))
   \<and> grid_path [''#-###'', ''#---#'', ''###-#''] [(0, 1), (1, 1), (1, 2), (1, 3), (2, 3)]
   \<and> edge_count [(0, 1), (1, 1), (1, 2), (1, 3), (2, 3)]
       = grid_distance [''#-###'', ''#---#'', ''###-#''] (0, 1) (2, 3)"
proof -
  let ?m = "[''#-###'', ''#---#'', ''###-#'']"
  let ?p = "[(0, 1), (1, 1), (1, 2), (1, 3), (2, 3)] :: path"
  have r: "bfs_algorithm ?m (0, 1) (2, 3) = Some (Inr (?p, 4))"
    by (simp add: search_eval)
  have g: "grid_path ?m ?p" by (simp add: open_cell_def in_grid_def adjacent_def)
  then have reach: "grid_reachable ?m (0, 1) (2, 3)"
    unfolding grid_reachable_def by (intro exI[of _ ?p]) simp
  have s: "(0, 1) \<in> {(0 :: int, 1 :: int), (1, 1), (1, 2), (1, 3), (2, 3)}" by simp
  note t = bfs_path_is_shortest[of ?m "(0, 1)" "(2, 3)" ?p 4 "{(0, 1), (1, 1), (1, 2), (1, 3), (2, 3)}"]
  note t1 = mp[OF conjunct1[OF t] r]
  from mp[OF conjunct2[OF conjunct2[OF t1]] g]
  have d: "edge_count ?p = grid_distance ?m (0, 1) (2, 3)" .
  from bordered_region s reach r g d show ?thesis by (intro conjI)
qed

text \<open>
  The claim as stated fails: with the first and the last row open in the same columns, the
  breadth-first search returns a path of 4 edges through row \<open>-1\<close>, where the shortest path
  through Open cells has 6 edges.
\<close>

theorem bfs_path_shorter_than_any_grid_path:
  "bfs_algorithm [''-#-#'', ''-#-#'', ''---#'', ''####'', ''---#''] (0, 0) (0, 2)
     = Some (Inr ([(0, 0), (- 1, 0), (- 1, 1), (- 1, 2), (0, 2)], 8))
   \<and> edge_count [(0, 0), (- 1, 0), (- 1, 1), (- 1, 2), (0, 2)] = 4
   \<and> grid_reachable [''-#-#'', ''-#-#'', ''---#'', ''####'', ''---#''] (0, 0) (0, 2)
   \<and> grid_distance [''-#-#'', ''-#-#'', ''---#'', ''####'', ''---#''] (0, 0) (0, 2) = 6"
proof -
  let ?m = "[''-#-#'', ''-#-#'', ''---#'', ''####'', ''---#'']"
  have r: "bfs_algorithm ?m (0, 0) (0, 2)
     = Some (Inr ([(0, 0), (- 1, 0), (- 1, 1), (- 1, 2), (0, 2)], 8))"
    by (simp add: search_eval)
  have e: "edge_count [(0 :: int, 0 :: int), (- 1, 0), (- 1, 1), (- 1, 2), (0, 2)] = 4"
    by (simp add: edge_count_def)
  have "grid_path ?m [(0, 0), (1, 0), (2, 0), (2, 1), (2, 2), (1, 2), (0, 2)]"
    by (simp add: open_cell_def in_grid_def adjacent_def)
  then have g: "grid_reachable ?m (0, 0) (0, 2)"
    unfolding grid_reachable_def
    by (intro exI[of _ "[(0, 0), (1, 0), (2, 0), (2, 1), (2, 2), (1, 2), (0, 2)]"]) simp
  from r e g five_row_distance show ?thesis by (intro conjI)
qed

section \<open>The path of the A* search\<close>

text \<open>
  C3, as the code has it. When \<open>a_star_algorithm\<close> returns and a walk from \<open>start\<close> to \<open>end\<close>
  exists, the returned path is not empty and its edge count is at most that of every such
  walk, hence of every path through Open cells from \<open>start\<close> to \<open>end\<close>; it is the true
  optimal cost whenever the returned path is itself a path through Open cells.

  On a grid where \<open>start\<close> lies in a closed region of Open cells, \<open>a_star_algorithm\<close> returns
  for every reachable \<open>end\<close> a path through Open cells from \<open>start\<close> to \<open>end\<close> of optimal
  cost.

  On any grid with \<open>end\<close> reachable through Open cells, \<open>a_star_algorithm\<close> either raises
  \<open>IndexError\<close> or returns a non-empty walk from \<open>start\<close> to \<open>end\<close> whose edge count is at
  most the optimal cost.
\<close>

theorem a_star_path_is_optimal:
  "(a_star_algorithm maze start end = Some (Inr (path, n)) \<longrightarrow>
      (\<forall>w. walk maze w \<and> hd w = start \<and> last w = end \<longrightarrow>
            path \<noteq> [] \<and> edge_count path \<le> edge_count w)
    \<and> (grid_reachable maze start end \<longrightarrow>
            path \<noteq> [] \<and> walk maze path \<and> hd path = start \<and> last path = end
            \<and> edge_count path \<le> grid_distance maze start end)
    \<and> (grid_path maze path \<longrightarrow> edge_count path = grid_distance maze start end))
   \<and> (closed_region maze end S \<and> start \<in> S \<and> grid_reachable maze start end \<longrightarrow>
      (\<exists>path n. a_star_algorithm maze start end = Some (Inr (path, n)) \<and> grid_path maze path
         \<and> hd path = start \<and> last path = end
         \<and> edge_count path = grid_distance maze start end))
   \<and> (grid_reachable maze start end \<longrightarrow>
      (\<exists>r. a_star_algorithm maze start end = Some r \<and>
           (r = Inl IndexError \<or>
            (\<exists>path n. r = Inr (path, n) \<and>
               (path \<noteq> [] \<and> walk maze path \<and> hd path = start \<and> last path = end
                \<and> edge_count path \<le> grid_distance maze start end)))))"
  by (rule conjI, rule impI, rule a_star_shortest_returned, assumption,
      rule conjI, rule impI, rule a_star_shortest_in_region, assumption,
      rule impI, rule a_star_shortest_or_error, assumption)

theorem a_star_path_is_optimal_witness:
  "closed_region [''#-###'', ''#---#'', ''###-#''] (2, 3) {(0, 1), (1, 1), (1, 2), (1, 3), (2, 3)}
   \<and> (0, 1) \<in> {(0 :: int, 1 :: int), (1, 1), (1, 2), (1, 3), (2, 3)}
   \<and> grid_reachable [''#-###'', ''#---#'', ''###-#''] (0, 1) (2, 3)
   \<and> a_star_algorithm [''#-###'', ''#---#'', ''###-#''] (0, 1) (2, 3)
       = Some (Inr ([(0, 1), (1, 1), (1, 2), (1, 3), (2, 3)], 4))
   \<and> grid_path [''#-###'', ''#---#'', ''###-#''] [(0, 1), (1, 1), (1, 2), (1, 3), (2, 3)]
   \<and> edge_count [(0, 1), (1, 1), (1, 2), (1, 3), (2, 3)]
       = grid_distance [''#-###'', ''#---#'', ''###-#''] (0, 1) (2, 3)"
proof -
  let ?m = "[''#-###'', ''#---#'', ''###-#'']"
  let ?p = "[(0, 1), (1, 1), (1, 2), (1, 3), (2, 3)] :: path"
  have r: "a_star_algorithm ?m (0, 1) (2, 3) = Some (Inr (?p, 4))"
    by (simp add: search_eval)
  have g: "grid_path ?m ?p" by (simp add: open_cell_def in_grid_def adjacent_def)
  then have reach: "grid_reachable ?m (0, 1) (2, 3)"
    unfolding grid_reachable_def by (intro exI[of _ ?p]) simp
  have s: "(0, 1) \<in> {(0 :: int, 1 :: int), (1, 1), (1, 2), (1, 3), (2, 3)}" by simp
  note t = a_star_path_is_optimal[of ?m "(0, 1)" "(2, 3)" ?p 4 "{(0, 1), (1, 1), (1, 2), (1, 3), (2, 3)}"]
  note t1 = mp[OF conjunct1[OF t] r]
  from mp[OF conjunct2[OF conjunct2[OF t1]] g]
  have d: "edge_count ?p = grid_distance ?m (0, 1) (2, 3)" .
  from bordered_region s reach r g d show ?thesis by (intro conjI)
qed

text \<open>
  The claim as stated fails in two ways. On a rectangular grid with \<open>end\<close> reachable, and
  \<open>start\<close> and \<open>end\<close> the cells the maze reader would choose, the A* search returns no path:
  it raises \<open>IndexError\<close>. On the grid of five rows it returns a list of 4 edges through
  row \<open>-1\<close>, which is no path of the grid, where the optimal path has 6 edges.
\<close>

theorem a_star_raises_or_leaves_grid:
  "grid_path [''--'', ''#-''] [(0, 0), (0, 1), (1, 1)]
   \<and> a_star_algorithm [''--'', ''#-''] (0, 0) (1, 1) = Some (Inl IndexError)
   \<and> a_star_algorithm [''-#-#'', ''-#-#'', ''---#'', ''####'', ''---#''] (0, 0) (0, 2)
     = Some (Inr ([(0, 0), (- 1, 0), (- 1, 1), (- 1, 2), (0, 2)], 5))
   \<and> \<not> grid_path [''-#-#'', ''-#-#'', ''---#'', ''####'', ''---#''] [(0, 0), (- 1, 0), (- 1, 1), (- 1, 2), (0, 2)]
   \<and> edge_count [(0, 0), (- 1, 0), (- 1, 1), (- 1, 2), (0, 2)] = 4
   \<and> grid_distance [''-#-#'', ''-#-#'', ''---#'', ''####'', ''---#''] (0, 0) (0, 2) = 6"
proof -
  let ?m = "[''-#-#'', ''-#-#'', ''---#'', ''####'', ''---#'']"
  have g: "grid_path [''--'', ''#-''] [(0, 0), (0, 1), (1, 1)]"
    by (simp add: open_cell_def in_grid_def adjacent_def)
  have x: "a_star_algorithm [''--'', ''#-''] (0, 0) (1, 1) = Some (Inl IndexError)"
    by (simp add: search_eval)
  have r: "a_star_algorithm ?m (0, 0) (0, 2)
     = Some (Inr ([(0, 0), (- 1, 0), (- 1, 1), (- 1, 2), (0, 2)], 5))"
    by (simp add: search_eval)
  have n: "\<not> grid_path ?m [(0, 0), (- 1, 0), (- 1, 1), (- 1, 2), (0, 2)]"
    by (simp add: open_cell_def in_grid_def)
  have e: "edge_count [(0 :: int, 0 :: int), (- 1, 0), (- 1, 1), (- 1, 2), (0, 2)] = 4"
    by (simp add: edge_count_def)
  from g x r n e five_row_distance show ?thesis by (intro conjI)
qed

section \<open>The empty path\<close>

text \<open>
  C4, as the code has it. Each of \<open>dfs_algorithm\<close>, \<open>bfs_algorithm\<close> and \<open>a_star_algorithm\<close>
  either raises \<open>IndexError\<close> or returns a path and a count that is not negative; the
  returned path is empty if and only if no walk leads from \<open>start\<close> to \<open>end\<close>, a walk being
  what the code can build (each step passes the test \<open>maze[row][col] == "-"\<close>, negative
  indices counting from the end; \<open>start\<close> is not tested). Whatever is reachable through Open
  cells is reachable by a walk, so an empty path is returned only if \<open>end\<close> is unreachable
  from \<open>start\<close> through Open cells.

  On a grid where \<open>start\<close> lies in a closed region of Open cells, each of the three
  functions returns, with a count that is not negative, and the path is empty if and only
  if \<open>end\<close> is unreachable from \<open>start\<close> through Open cells.
\<close>

theorem empty_path_iff_unreachable:
  "(\<exists>r. dfs_algorithm maze start end = Some r \<and>
        (r = Inl IndexError \<or>
         (\<exists>path n. r = Inr (path, n) \<and> 0 \<le> n \<and> (path = [] \<longleftrightarrow> \<not> walk_reachable maze start end))))
   \<and> (\<exists>r. bfs_algorithm maze start end = Some r \<and>
        (r = Inl IndexError \<or>
         (\<exists>path n. r = Inr (path, n) \<and> 0 \<le> n \<and> (path = [] \<longleftrightarrow> \<not> walk_reachable maze start end))))
   \<and> (\<exists>r. a_star_algorithm maze start end = Some r \<and>
        (r = Inl IndexError \<or>
         (\<exists>path n. r = Inr (path, n) \<and> 0 \<le> n \<and> (path = [] \<longleftrightarrow> \<not> walk_reachable maze start end))))
   \<and> (grid_reachable maze start end \<longrightarrow> walk_reachable maze start end)
   \<and> (closed_region maze end S \<and> start \<in> S \<longrightarrow>
        (\<exists>path n. dfs_algorithm maze start end = Some (Inr (path, n)) \<and> 0 \<le> n
           \<and> (path = [] \<longleftrightarrow> \<not> grid_reachable maze start end))
      \<and> (\<exists>path n. bfs_algorithm maze start end = Some (Inr (path, n)) \<and> 0 \<le> n
           \<and> (path = [] \<longleftrightarrow> \<not> grid_reachable maze start end))
      \<and> (\<exists>path n. a_star_algorithm maze start end = Some (Inr (path, n)) \<and> 0 \<le> n
           \<and> (path = [] \<longleftrightarrow> \<not> grid_reachable maze start end)))"
proof (intro conjI impI)
  show "\<exists>r. dfs_algorithm maze start end = Some r \<and>
        (r = Inl IndexError \<or>
         (\<exists>path n. r = Inr (path, n) \<and> 0 \<le> n \<and> (path = [] \<longleftrightarrow> \<not> walk_reachable maze start end)))"
    by (rule result_or_error[OF dfs_terminates]) (rule dfs_empty_iff)
  show "\<exists>r. bfs_algorithm maze start end = Some r \<and>
        (r = Inl IndexError \<or>
         (\<exists>path n. r = Inr (path, n) \<and> 0 \<le> n \<and> (path = [] \<longleftrightarrow> \<not> walk_reachable maze start end)))"
    by (rule result_or_error[OF bfs_terminates]) (rule bfs_empty_iff)
  show "\<exists>r. a_star_algorithm maze start end = Some r \<and>
        (r = Inl IndexError \<or>
         (\<exists>path n. r = Inr (path, n) \<and> 0 \<le> n \<and> (path = [] \<longleftrightarrow> \<not> walk_reachable maze start end)))"
    by (rule result_or_error[OF a_star_terminates]) (rule a_star_empty_iff)
  show "walk_reachable maze start end" if "grid_reachable maze start end"
    using that by (rule grid_reachable_walk_reachable)
next
  assume "closed_region maze end S \<and> start \<in> S"
  then have c: "closed_region maze end S" and s: "start \<in> S" by simp_all
  show "\<exists>path n. dfs_algorithm maze start end = Some (Inr (path, n)) \<and> 0 \<le> n
           \<and> (path = [] \<longleftrightarrow> \<not> grid_reachable maze start end)"
    by (rule region_empty_iff[OF dfs_region_returns[OF c s]]) (rule dfs_empty_iff)
  show "\<exists>path n. bfs_algorithm maze start end = Some (Inr (path, n)) \<and> 0 \<le> n
           \<and> (path = [] \<longleftrightarrow> \<not> grid_reachable maze start end)"
    by (rule region_empty_iff[OF bfs_region_returns[OF c s]]) (rule bfs_empty_iff)
  show "\<exists>path n. a_star_algorithm maze start end = Some (Inr (path, n)) \<and> 0 \<le> n
           \<and> (path = [] \<longleftrightarrow> \<not> grid_reachable maze start end)"
    by (rule region_empty_iff[OF a_star_region_returns[OF c s]]) (rule a_star_empty_iff)
qed

theorem empty_path_iff_unreachable_witness:
  "closed_region [''#-###'', ''#-#-#'', ''###-#''] (2, 3) {(0, 1), (1, 1)}
   \<and> (0, 1) \<in> {(0 :: int, 1 :: int), (1, 1)}
   \<and> dfs_algorithm [''#-###'', ''#-#-#'', ''###-#''] (0, 1) (2, 3) = Some (Inr ([], 2))
   \<and> bfs_algorithm [''#-###'', ''#-#-#'', ''###-#''] (0, 1) (2, 3) = Some (Inr ([], 2))
   \<and> a_star_algorithm [''#-###'', ''#-#-#'', ''###-#''] (0, 1) (2, 3) = Some (Inr ([], 2))
   \<and> \<not> grid_reachable [''#-###'', ''#-#-#'', ''###-#''] (0, 1) (2, 3)
   \<and> \<not> walk_reachable [''#-###'', ''#-#-#'', ''###-#''] (0, 1) (2, 3)
   \<and> dfs_algorithm [''#-###'', ''#---#'', ''###-#''] (0, 1) (2, 3)
       = Some (Inr ([(0, 1), (1, 1), (1, 2), (1, 3), (2, 3)], 4))
   \<and> walk_reachable [''#-###'', ''#---#'', ''###-#''] (0, 1) (2, 3)"
proof -
  let ?u = "[''#-###'', ''#-#-#'', ''###-#'']"
  let ?w = "[''#-###'', ''#---#'', ''###-#'']"
  have c: "closed_region ?u (2, 3) {(0, 1), (1, 1)}"
    unfolding closed_region_def adjacent_dfs_neighbors[symmetric]
    by (simp add: open_cell_def in_grid_def in_range_def is_move_def cell_def py_index_def)
  have s: "(0, 1) \<in> {(0 :: int, 1 :: int), (1, 1)}" by simp
  have r1: "dfs_algorithm ?u (0, 1) (2, 3) = Some (Inr ([], 2))" by (simp add: search_eval)
  have r2: "bfs_algorithm ?u (0, 1) (2, 3) = Some (Inr ([], 2))" by (simp add: search_eval)
  have r3: "a_star_algorithm ?u (0, 1) (2, 3) = Some (Inr ([], 2))" by (simp add: search_eval)
  have r4: "dfs_algorithm ?w (0, 1) (2, 3) = Some (Inr ([(0, 1), (1, 1), (1, 2), (1, 3), (2, 3)], 4))"
    by (simp add: search_eval)
  note t = empty_path_iff_unreachable[of ?u "(0, 1)" "(2, 3)" "{(0, 1), (1, 1)}"]
  from conjunct1[OF t] r1 have nw: "\<not> walk_reachable ?u (0, 1) (2, 3)" by simp
  from conjunct2[OF conjunct2[OF conjunct2[OF conjunct2[OF t]]]] c s
  have "\<exists>path n. dfs_algorithm ?u (0, 1) (2, 3) = Some (Inr (path, n)) \<and> 0 \<le> n
           \<and> (path = [] \<longleftrightarrow> \<not> grid_reachable ?u (0, 1) (2, 3))" by blast
  with r1 have ng: "\<not> grid_reachable ?u (0, 1) (2, 3)" by simp
  note v = empty_path_iff_unreachable[of ?w "(0, 1)" "(2, 3)" "{}"]
  from conjunct1[OF v] r4 have yw: "walk_reachable ?w (0, 1) (2, 3)" by simp
  from c s r1 r2 r3 ng nw r4 yw show ?thesis by (intro conjI)
qed

text \<open>
  The claim as stated fails: a row of walls separates \<open>start\<close> from \<open>end\<close>, yet the
  depth-first and the A* search return a path, through row \<open>-1\<close>.
\<close>

theorem path_returned_for_unreachable_end:
  "dfs_algorithm [''-#-#'', ''####'', ''---#''] (0, 0) (0, 2)
     = Some (Inr ([(0, 0), (- 1, 0), (- 1, 1), (- 1, 2), (0, 2)], 4))
   \<and> a_star_algorithm [''-#-#'', ''####'', ''---#''] (0, 0) (0, 2)
     = Some (Inr ([(0, 0), (- 1, 0), (- 1, 1), (- 1, 2), (0, 2)], 4))
   \<and> [(0, 0), (- 1, 0), (- 1, 1), (- 1, 2), (0 :: int, 2 :: int)] \<noteq> []
   \<and> \<not> grid_reachable [''-#-#'', ''####'', ''---#''] (0, 0) (0, 2)"
proof -
  let ?m = "[''-#-#'', ''####'', ''---#'']"
  have r1: "dfs_algorithm ?m (0, 0) (0, 2)
     = Some (Inr ([(0, 0), (- 1, 0), (- 1, 1), (- 1, 2), (0, 2)], 4))" by (simp add: search_eval)
  have r2: "a_star_algorithm ?m (0, 0) (0, 2)
     = Some (Inr ([(0, 0), (- 1, 0), (- 1, 1), (- 1, 2), (0, 2)], 4))" by (simp add: search_eval)
  have ne: "[(0, 0), (- 1, 0), (- 1, 1), (- 1, 2), (0 :: int, 2 :: int)] \<noteq> []" by simp
  from r1 r2 ne wall_row_unreachable show ?thesis by (intro conjI)
qed

section \<open>Termination\<close>

lemma result_exits:
  fixes algo :: "result option"
  assumes ends: "\<exists>r. algo = Some r"
    and lastp: "\<And>path n. algo = Some (Inr (path, n)) \<Longrightarrow> path \<noteq> [] \<Longrightarrow> last path = end"
  shows "\<exists>r. algo = Some r \<and>
           (r = Inl IndexError \<or> (\<exists>n. r = Inr ([], n)) \<or>
            (\<exists>path n. r = Inr (path, n) \<and> path \<noteq> [] \<and> last path = end))"
proof -
  from ends obtain r where r: "algo = Some r" by blast
  show ?thesis
  proof (cases r)
    case (Inl e)
    with r show ?thesis by simp
  next
    case (Inr pn)
    obtain path n where pn: "pn = (path, n)" by (cases pn)
    show ?thesis
    proof (cases "path = []")
      case True
      with r Inr pn show ?thesis by simp
    next
      case False
      with lastp[of path n] r Inr pn show ?thesis by simp
    qed
  qed
qed

text \<open>
  C5, as the code has it. Each of the three search loops ends, for every maze and every
  pair of coordinates: by reaching \<open>end\<close> (a non-empty path whose last coordinate is
  \<open>end\<close>), by the frontier becoming empty (the empty path), or by the \<open>IndexError\<close> that
  reading a neighbour out of Python's index range raises. It never runs forever.
\<close>

theorem search_always_ends:
  "(\<exists>r. dfs_algorithm maze start end = Some r \<and>
        (r = Inl IndexError \<or> (\<exists>n. r = Inr ([], n)) \<or>
         (\<exists>path n. r = Inr (path, n) \<and> path \<noteq> [] \<and> last path = end))) \<and>
   (\<exists>r. bfs_algorithm maze start end = Some r \<and>
        (r = Inl IndexError \<or> (\<exists>n. r = Inr ([], n)) \<or>
         (\<exists>path n. r = Inr (path, n) \<and> path \<noteq> [] \<and> last path = end))) \<and>
   (\<exists>r. a_star_algorithm maze start end = Some r \<and>
        (r = Inl IndexError \<or> (\<exists>n. r = Inr ([], n)) \<or>
         (\<exists>path n. r = Inr (path, n) \<and> path \<noteq> [] \<and> last path = end)))"
proof (intro conjI)
  show "\<exists>r. dfs_algorithm maze start end = Some r \<and>
        (r = Inl IndexError \<or> (\<exists>n. r = Inr ([], n)) \<or>
         (\<exists>path n. r = Inr (path, n) \<and> path \<noteq> [] \<and> last path = end))"
    using dfs_terminates dfs_returns_walk by (intro result_exits) auto
  show "\<exists>r. bfs_algorithm maze start end = Some r \<and>
        (r = Inl IndexError \<or> (\<exists>n. r = Inr ([], n)) \<or>
         (\<exists>path n. r = Inr (path, n) \<and> path \<noteq> [] \<and> last path = end))"
    using bfs_terminates bfs_returns_walk by (intro result_exits) auto
  show "\<exists>r. a_star_algorithm maze start end = Some r \<and>
        (r = Inl IndexError \<or> (\<exists>n. r = Inr ([], n)) \<or>
         (\<exists>path n. r = Inr (path, n) \<and> path \<noteq> [] \<and> last path = end))"
    using a_star_terminates a_star_returns_walk by (intro result_exits) auto
qed

theorem search_always_ends_witness:
  "(\<exists>r. dfs_algorithm [''-#-#'', ''####'', ''---#''] (0, 0) (0, 2) = Some r) \<and>
   (\<exists>r. bfs_algorithm [''-#-#'', ''####'', ''---#''] (0, 0) (0, 2) = Some r) \<and>
   (\<exists>r. a_star_algorithm [''-#-#'', ''####'', ''---#''] (0, 0) (0, 2) = Some r)"
  using search_always_ends[of "[''-#-#'', ''####'', ''---#'']" "(0, 0)" "(0, 2)"] by blast

text \<open>
  The claim as stated names two ways for the loop to end. On a rectangular grid, with
  \<open>start\<close> and \<open>end\<close> the open cells the maze reader would choose, the breadth-first search
  ends in a third way.
\<close>

theorem search_ends_by_index_error:
  "bfs_algorithm [''--'', ''#-''] (0, 0) (1, 1) = Some (Inl IndexError)"
  by (simp add: search_eval)

section \<open>The returned path\<close>

text \<open>
  C6, as the code has it. A non-empty path returned by \<open>dfs_algorithm\<close>, \<open>bfs_algorithm\<close> or
  \<open>a_star_algorithm\<close> starts at \<open>start\<close>, ends at \<open>end\<close>, and each coordinate after the
  first differs from the one before by exactly one unit in exactly one axis and passes the
  code's own test \<open>maze[row][col] == "-"\<close>, in which a negative index counts from the end of
  the list. The first coordinate, \<open>start\<close>, is never tested. When \<open>start\<close> is an Open cell
  and no coordinate of the path is negative, the path is a path through Open cells of the
  grid.
\<close>

theorem returned_path_is_walk:
  assumes "dfs_algorithm maze start end = Some (Inr (path, n))
         \<or> bfs_algorithm maze start end = Some (Inr (path, n))
         \<or> a_star_algorithm maze start end = Some (Inr (path, n))"
    and "path \<noteq> []"
  shows "walk maze path \<and> hd path = start \<and> last path = end
       \<and> (open_cell maze start \<and> (\<forall>c \<in> set path. 0 \<le> fst c \<and> 0 \<le> snd c) \<longrightarrow> grid_path maze path)"
proof -
  from assms have w: "walk maze path \<and> hd path = start \<and> last path = end"
    using dfs_returns_walk bfs_returns_walk a_star_returns_walk by blast
  then show ?thesis using walk_grid_path[of maze path] by simp
qed

theorem returned_path_is_walk_witness:
  "bfs_algorithm [''#-#'', ''#-#'', ''#-#''] (0, 1) (2, 1) = Some (Inr ([(0, 1), (1, 1), (2, 1)], 3))
   \<and> walk [''#-#'', ''#-#'', ''#-#''] [(0, 1), (1, 1), (2, 1)]
   \<and> grid_path [''#-#'', ''#-#'', ''#-#''] [(0, 1), (1, 1), (2, 1)]"
proof -
  have r: "bfs_algorithm [''#-#'', ''#-#'', ''#-#''] (0, 1) (2, 1) = Some (Inr ([(0, 1), (1, 1), (2, 1)], 3))"
    by (simp add: search_eval)
  have o: "open_cell [''#-#'', ''#-#'', ''#-#''] (0, 1)"
    by (simp add: open_cell_def in_grid_def)
  from returned_path_is_walk[of "[''#-#'', ''#-#'', ''#-#'']" "(0, 1)" "(2, 1)" "[(0, 1), (1, 1), (2, 1)]" 3] r o
  show ?thesis by simp
qed

text \<open>
  The claim as stated fails: on a grid whose first and last rows are both open at column 0,
  the breadth-first search returns a path through row \<open>-1\<close>, which is no cell of the grid.
\<close>

theorem returned_path_leaves_grid:
  "bfs_algorithm [''-#-#'', ''####'', ''---#''] (0, 0) (0, 2)
     = Some (Inr ([(0, 0), (- 1, 0), (- 1, 1), (- 1, 2), (0, 2)], 4))
   \<and> (- 1, 0) \<in> set [(0, 0), (- 1, 0), (- 1, 1), (- 1, 2), (0 :: int, 2 :: int)]
   \<and> \<not> open_cell [''-#-#'', ''####'', ''---#''] (- 1, 0)"
  by (simp add: search_eval open_cell_def in_grid_def)

section \<open>The number of nodes explored\<close>

text \<open>
  C7, as the code has it. The count returned by each search function is never negative. It
  is at least 1 whenever \<open>start\<close> and \<open>end\<close> differ, since \<open>start\<close> is then expanded in
  the first pass. When \<open>start = end\<close> the functions return before anything is expanded, and
  the count is 0 although the path \<open>[start]\<close> is not empty.
\<close>

theorem nodes_explored_bounds:
  assumes "dfs_algorithm maze start end = Some (Inr (path, n))
         \<or> bfs_algorithm maze start end = Some (Inr (path, n))
         \<or> a_star_algorithm maze start end = Some (Inr (path, n))"
  shows "0 \<le> n \<and> (start \<noteq> end \<longrightarrow> 1 \<le> n) \<and> (start = end \<longrightarrow> n = 0)"
  using assms
proof (elim disjE)
  assume "dfs_algorithm maze start end = Some (Inr (path, n))"
  then show ?thesis by (rule dfs_count_positive)
next
  assume "bfs_algorithm maze start end = Some (Inr (path, n))"
  then show ?thesis by (rule bfs_count_positive)
next
  assume "a_star_algorithm maze start end = Some (Inr (path, n))"
  then show ?thesis by (rule a_star_count_positive)
qed

theorem nodes_explored_bounds_witness:
  "a_star_algorithm [''#-#'', ''#-#'', ''#-#''] (0, 1) (2, 1) = Some (Inr ([(0, 1), (1, 1), (2, 1)], 2))
   \<and> (0 :: int, 1 :: int) \<noteq> (2, 1) \<and> (1 :: int) \<le> 2"
proof -
  have r: "a_star_algorithm [''#-#'', ''#-#'', ''#-#''] (0, 1) (2, 1) = Some (Inr ([(0, 1), (1, 1), (2, 1)], 2))"
    by (simp add: search_eval)
  from nodes_explored_bounds[of "[''#-#'', ''#-#'', ''#-#'']" "(0, 1)" "(2, 1)" "[(0, 1), (1, 1), (2, 1)]" 2] r
  show ?thesis by simp
qed

text \<open>
  The claim as stated fails when \<open>start = end\<close>: a path is found and the count is 0.
\<close>

theorem path_found_with_zero_count:
  "dfs_algorithm [''#-#'', ''#-#'', ''#-#''] (0, 1) (0, 1) = Some (Inr ([(0, 1)], 0))
   \<and> [(0 :: int, 1 :: int)] \<noteq> [] \<and> \<not> (1 :: int) \<le> 0"
  by (simp add: dfs_algorithm_def dfs_body_def run_loop_Stop)

section \<open>Which neighbours enter the frontier\<close>

text \<open>
  C8. Take a pass of a loop body that takes from the frontier a node that is not \<open>end\<close>
  and not yet visited. The pass goes on exactly when all four neighbours are within
  Python's index range, and then:

  \<^item> \<open>bfs_algorithm\<close> appends to the queue the neighbours that pass the test
    \<open>maze[n_row][n_col] == "-"\<close> and are not in the visited set (which by then holds the
    node itself), and no others;
  \<^item> \<open>dfs_algorithm\<close> and \<open>a_star_algorithm\<close> append every neighbour that passes the test,
    visited or not: the visited set does not enter into it.

  In each case the node is added to the visited set and the count goes up by one.
\<close>

theorem neighbor_filtering:
  assumes "node \<noteq> end" and "node \<notin> visited"
  shows
    "(dfs_body maze end (stack @ [(node, path)], visited, n) = Continue (stack', visited', n') \<longleftrightarrow>
        (\<forall>nb. adjacent node nb \<longrightarrow> in_range maze nb)
      \<and> stack' = stack @ map (\<lambda>nb. (nb, path @ [nb])) (filter (is_move maze) (dfs_neighbors node))
      \<and> visited' = insert node visited \<and> n' = n + 1)
   \<and> (bfs_body maze end ((node, path) # queue, visited, n) = Continue (queue', visited', n') \<longleftrightarrow>
        (\<forall>nb. adjacent node nb \<longrightarrow> in_range maze nb)
      \<and> queue' = queue @ map (\<lambda>nb. (nb, path @ [nb]))
                            (filter (\<lambda>nb. is_move maze nb \<and> nb \<notin> insert node visited)
                               (bfs_neighbors node))
      \<and> visited' = insert node visited \<and> n' = n + 1)
   \<and> (heap \<noteq> [] \<and> smallest heap = (priority, cost, node, path) \<longrightarrow>
        (a_star_body maze end (heap, visited, n) = Continue (heap', visited', n') \<longleftrightarrow>
           (\<forall>nb. adjacent node nb \<longrightarrow> in_range maze nb)
         \<and> heap' = remove1 (smallest heap) heap @
                      map (\<lambda>nb. (cost + 1 + heuristic end nb, cost + 1, nb, path @ [nb]))
                        (filter (is_move maze) (a_star_neighbors node))
         \<and> visited' = insert node visited \<and> n' = n + 1))"
proof (intro conjI impI)
  show "dfs_body maze end (stack @ [(node, path)], visited, n) = Continue (stack', visited', n') \<longleftrightarrow>
        (\<forall>nb. adjacent node nb \<longrightarrow> in_range maze nb)
      \<and> stack' = stack @ map (\<lambda>nb. (nb, path @ [nb])) (filter (is_move maze) (dfs_neighbors node))
      \<and> visited' = insert node visited \<and> n' = n + 1"
    unfolding dfs_body_fresh[OF assms] by (cases "\<forall>nb. adjacent node nb \<longrightarrow> in_range maze nb") auto
  show "bfs_body maze end ((node, path) # queue, visited, n) = Continue (queue', visited', n') \<longleftrightarrow>
        (\<forall>nb. adjacent node nb \<longrightarrow> in_range maze nb)
      \<and> queue' = queue @ map (\<lambda>nb. (nb, path @ [nb]))
                            (filter (\<lambda>nb. is_move maze nb \<and> nb \<notin> insert node visited)
                               (bfs_neighbors node))
      \<and> visited' = insert node visited \<and> n' = n + 1"
    unfolding bfs_body_fresh[OF assms] by (cases "\<forall>nb. adjacent node nb \<longrightarrow> in_range maze nb") auto
  show "a_star_body maze end (heap, visited, n) = Continue (heap', visited', n') \<longleftrightarrow>
           (\<forall>nb. adjacent node nb \<longrightarrow> in_range maze nb)
         \<and> heap' = remove1 (smallest heap) heap @
                      map (\<lambda>nb. (cost + 1 + heuristic end nb, cost + 1, nb, path @ [nb]))
                        (filter (is_move maze) (a_star_neighbors node))
         \<and> visited' = insert node visited \<and> n' = n + 1"
    if h: "heap \<noteq> [] \<and> smallest heap = (priority, cost, node, path)"
  proof -
    from h have f: "a_star_body maze end (heap, visited, n) =
           (if \<forall>nb. adjacent node nb \<longrightarrow> in_range maze nb
            then Continue (remove1 (smallest heap) heap @
                             map (\<lambda>nb. (cost + 1 + heuristic end nb, cost + 1, nb, path @ [nb]))
                               (filter (is_move maze) (a_star_neighbors node)),
                           insert node visited, n + 1)
            else Stop (Inl IndexError))"
      using a_star_body_fresh[OF assms, of heap priority cost path] by simp
    show ?thesis
      unfolding f by (cases "\<forall>nb. adjacent node nb \<longrightarrow> in_range maze nb") auto
  qed
qed

text \<open>
  On the corridor of three rows, in the states the three searches reach after their first
  pass: the neighbour \<open>(0, 1)\<close> is open and already visited; the depth-first and the A*
  search push it again, the breadth-first search does not.
\<close>

theorem neighbor_filtering_witness:
  "reaches (dfs_body [''#-#'', ''#-#'', ''#-#''] (2, 1)) ([((0, 1), [(0, 1)])], {}, 0)
     ([((1, 1), [(0, 1), (1, 1)]), ((- 1, 1), [(0, 1), (- 1, 1)])], {(0, 1)}, 1)
   \<and> dfs_body [''#-#'', ''#-#'', ''#-#''] (2, 1)
       ([((1, 1), [(0, 1), (1, 1)]), ((- 1, 1), [(0, 1), (- 1, 1)])], {(0, 1)}, 1)
     = Continue ([((1, 1), [(0, 1), (1, 1)]), ((0, 1), [(0, 1), (- 1, 1), (0, 1)]),
                  ((- 2, 1), [(0, 1), (- 1, 1), (- 2, 1)])], {(- 1, 1), (0, 1)}, 2)
   \<and> reaches (bfs_body [''#-#'', ''#-#'', ''#-#''] (2, 1)) ([((0, 1), [(0, 1)])], {}, 0)
     ([((1, 1), [(0, 1), (1, 1)]), ((- 1, 1), [(0, 1), (- 1, 1)])], {(0, 1)}, 1)
   \<and> bfs_body [''#-#'', ''#-#'', ''#-#''] (2, 1)
       ([((1, 1), [(0, 1), (1, 1)]), ((- 1, 1), [(0, 1), (- 1, 1)])], {(0, 1)}, 1)
     = Continue ([((- 1, 1), [(0, 1), (- 1, 1)]), ((2, 1), [(0, 1), (1, 1), (2, 1)])],
                 {(1, 1), (0, 1)}, 2)
   \<and> reaches (a_star_body [''#-#'', ''#-#'', ''#-#''] (2, 1)) ([(2, 0, (0, 1), [(0, 1)])], {}, 0)
     ([(4, 1, (- 1, 1), [(0, 1), (- 1, 1)]), (2, 1, (1, 1), [(0, 1), (1, 1)])], {(0, 1)}, 1)
   \<and> a_star_body [''#-#'', ''#-#'', ''#-#''] (2, 1)
       ([(4, 1, (- 1, 1), [(0, 1), (- 1, 1)]), (2, 1, (1, 1), [(0, 1), (1, 1)])], {(0, 1)}, 1)
     = Continue ([(4, 1, (- 1, 1), [(0, 1), (- 1, 1)]), (4, 2, (0, 1), [(0, 1), (1, 1), (0, 1)]),
                  (2, 2, (2, 1), [(0, 1), (1, 1), (2, 1)])], {(1, 1), (0, 1)}, 2)"
proof -
  let ?m = "[''#-#'', ''#-#'', ''#-#'']"
  have mv: "is_move ?m (0, 1)" "is_move ?m (2, 1)" "is_move ?m (- 2, 1)"
    "\<not> is_move ?m (- 1, 2)" "\<not> is_move ?m (- 1, 0)" "\<not> is_move ?m (1, 2)" "\<not> is_move ?m (1, 0)"
    by (simp_all add: is_move_def cell_def py_index_def)
  have r1: "reaches (dfs_body ?m (2, 1)) ([((0, 1), [(0, 1)])], {}, 0)
     ([((1, 1), [(0, 1), (1, 1)]), ((- 1, 1), [(0, 1), (- 1, 1)])], {(0, 1)}, 1)"
    by (rule reaches_next[OF reaches_init]) (simp add: dfs_body_def cell_def py_index_def)
  have r2: "reaches (bfs_body ?m (2, 1)) ([((0, 1), [(0, 1)])], {}, 0)
     ([((1, 1), [(0, 1), (1, 1)]), ((- 1, 1), [(0, 1), (- 1, 1)])], {(0, 1)}, 1)"
    by (rule reaches_next[OF reaches_init]) (simp add: bfs_body_def cell_def py_index_def)
  have r3: "reaches (a_star_body ?m (2, 1)) ([(2, 0, (0, 1), [(0, 1)])], {}, 0)
     ([(4, 1, (- 1, 1), [(0, 1), (- 1, 1)]), (2, 1, (1, 1), [(0, 1), (1, 1)])], {(0, 1)}, 1)"
    by (rule reaches_next[OF reaches_init])
      (simp add: a_star_body_def heappop_def heappush_def heuristic_def cell_def py_index_def)
  have ok1: "\<forall>nb. adjacent (- 1, 1) nb \<longrightarrow> in_range ?m nb"
    unfolding adjacent_dfs_neighbors[symmetric] by (simp add: in_range_def py_index_def)
  have ok2: "\<forall>nb. adjacent (1, 1) nb \<longrightarrow> in_range ?m nb"
    unfolding adjacent_dfs_neighbors[symmetric] by (simp add: in_range_def py_index_def)
  have c1: "(- 1 :: int, 1 :: int) \<noteq> (2, 1)" and d1: "(- 1 :: int, 1 :: int) \<notin> {(0, 1)}" by simp_all
  have c2: "(1 :: int, 1 :: int) \<noteq> (2, 1)" and d2: "(1 :: int, 1 :: int) \<notin> {(0, 1)}" by simp_all
  have s1: "dfs_body ?m (2, 1)
       ([((1, 1), [(0, 1), (1, 1)]), ((- 1, 1), [(0, 1), (- 1, 1)])], {(0, 1)}, 1)
     = Continue ([((1, 1), [(0, 1), (1, 1)]), ((0, 1), [(0, 1), (- 1, 1), (0, 1)]),
                  ((- 2, 1), [(0, 1), (- 1, 1), (- 2, 1)])], {(- 1, 1), (0, 1)}, 2)"
    using neighbor_filtering[OF c1 d1, where maze = ?m and stack = "[((1, 1), [(0, 1), (1, 1)])]"
        and path = "[(0, 1), (- 1, 1)]" and n = 1
        and stack' = "[((1, 1), [(0, 1), (1, 1)]), ((0, 1), [(0, 1), (- 1, 1), (0, 1)]),
                  ((- 2, 1), [(0, 1), (- 1, 1), (- 2, 1)])]"
        and visited' = "{(- 1, 1), (0, 1)}" and n' = 2] ok1 mv
    by simp
  have s2: "bfs_body ?m (2, 1)
       ([((1, 1), [(0, 1), (1, 1)]), ((- 1, 1), [(0, 1), (- 1, 1)])], {(0, 1)}, 1)
     = Continue ([((- 1, 1), [(0, 1), (- 1, 1)]), ((2, 1), [(0, 1), (1, 1), (2, 1)])],
                 {(1, 1), (0, 1)}, 2)"
    using neighbor_filtering[OF c2 d2, where maze = ?m and queue = "[((- 1, 1), [(0, 1), (- 1, 1)])]"
        and path = "[(0, 1), (1, 1)]" and n = 1
        and queue' = "[((- 1, 1), [(0, 1), (- 1, 1)]), ((2, 1), [(0, 1), (1, 1), (2, 1)])]"
        and visited' = "{(1, 1), (0, 1)}" and n' = 2] ok2 mv
    by simp
  have h: "[(4 :: int, 1 :: int, (- 1 :: int, 1 :: int), [(0 :: int, 1 :: int), (- 1, 1)]),
            (2, 1, (1, 1), [(0, 1), (1, 1)])] \<noteq> []
         \<and> smallest [(4 :: int, 1 :: int, (- 1 :: int, 1 :: int), [(0 :: int, 1 :: int), (- 1, 1)]),
            (2, 1, (1, 1), [(0, 1), (1, 1)])] = (2, 1, (1, 1), [(0, 1), (1, 1)])"
    by simp
  have s3: "a_star_body ?m (2, 1)
       ([(4, 1, (- 1, 1), [(0, 1), (- 1, 1)]), (2, 1, (1, 1), [(0, 1), (1, 1)])], {(0, 1)}, 1)
     = Continue ([(4, 1, (- 1, 1), [(0, 1), (- 1, 1)]), (4, 2, (0, 1), [(0, 1), (1, 1), (0, 1)]),
                  (2, 2, (2, 1), [(0, 1), (1, 1), (2, 1)])], {(1, 1), (0, 1)}, 2)"
    using neighbor_filtering[OF c2 d2, where maze = ?m
        and heap = "[(4, 1, (- 1, 1), [(0, 1), (- 1, 1)]), (2, 1, (1, 1), [(0, 1), (1, 1)])]"
        and priority = 2 and cost = 1 and path = "[(0, 1), (1, 1)]" and n = 1
        and heap' = "[(4, 1, (- 1, 1), [(0, 1), (- 1, 1)]), (4, 2, (0, 1), [(0, 1), (1, 1), (0, 1)]),
                  (2, 2, (2, 1), [(0, 1), (1, 1), (2, 1)])]"
        and visited' = "{(1, 1), (0, 1)}" and n' = 2] ok2 mv h
    by (simp add: heuristic_def)
  from r1 s1 r2 s2 r3 s3 show ?thesis by blast
qed

section \<open>When a coordinate enters the visited set\<close>

text \<open>
  C9. In every state that \<open>dfs_algorithm\<close>, \<open>bfs_algorithm\<close> or \<open>a_star_algorithm\<close> reaches at
  the top of its loop, the visited set is exactly the set of coordinates expanded so far,
  and \<open>node_count\<close> is its cardinality. A pass of the loop changes the visited set in one
  way only: it adds the node it has just taken from the frontier, when that node was not
  visited, and the count goes up by one with it. The neighbours a pass puts into the
  frontier are not added to the visited set.
\<close>

theorem visited_is_the_expanded_nodes:
  "(reaches (dfs_body maze end) ([(start, [start])], {}, 0) (stack, visited, n) \<longrightarrow>
      visited = expanded_so_far (dfs_body maze end) (dfs_expands end)
                  ([(start, [start])], {}, 0) (stack, visited, n)
    \<and> finite visited \<and> n = int (card visited)
    \<and> (\<forall>stack' visited' n'.
          dfs_body maze end (stack, visited, n) = Continue (stack', visited', n') \<longrightarrow>
            (visited' = visited \<and> n' = n \<and> fst (last stack) \<in> visited)
          \<or> (visited' = insert (fst (last stack)) visited \<and> n' = n + 1
               \<and> fst (last stack) \<notin> visited)))
   \<and> (reaches (bfs_body maze end) ([(start, [start])], {}, 0) (queue, visited, n) \<longrightarrow>
      visited = expanded_so_far (bfs_body maze end) (bfs_expands end)
                  ([(start, [start])], {}, 0) (queue, visited, n)
    \<and> finite visited \<and> n = int (card visited)
    \<and> (\<forall>queue' visited' n'.
          bfs_body maze end (queue, visited, n) = Continue (queue', visited', n') \<longrightarrow>
            (visited' = visited \<and> n' = n \<and> fst (hd queue) \<in> visited)
          \<or> (visited' = insert (fst (hd queue)) visited \<and> n' = n + 1
               \<and> fst (hd queue) \<notin> visited)))
   \<and> (reaches (a_star_body maze end) ([(heuristic end start, 0, start, [start])], {}, 0)
          (heap, visited, n) \<longrightarrow>
      visited = expanded_so_far (a_star_body maze end) (a_star_expands end)
                  ([(heuristic end start, 0, start, [start])], {}, 0) (heap, visited, n)
    \<and> finite visited \<and> n = int (card visited)
    \<and> (\<forall>heap' visited' n'.
          a_star_body maze end (heap, visited, n) = Continue (heap', visited', n') \<longrightarrow>
            (visited' = visited \<and> n' = n \<and> fst (snd (snd (smallest heap))) \<in> visited)
          \<or> (visited' = insert (fst (snd (snd (smallest heap)))) visited \<and> n' = n + 1
               \<and> fst (snd (snd (smallest heap))) \<notin> visited)))"
proof (intro conjI impI allI)
  assume r: "reaches (dfs_body maze end) ([(start, [start])], {}, 0) (stack, visited, n)"
  from dfs_reaches_expanded[OF r]
  show "visited = expanded_so_far (dfs_body maze end) (dfs_expands end)
                  ([(start, [start])], {}, 0) (stack, visited, n)"
    and "finite visited" and "n = int (card visited)" by blast+
next
  assume r: "reaches (bfs_body maze end) ([(start, [start])], {}, 0) (queue, visited, n)"
  from bfs_reaches_expanded[OF r]
  show "visited = expanded_so_far (bfs_body maze end) (bfs_expands end)
                  ([(start, [start])], {}, 0) (queue, visited, n)"
    and "finite visited" and "n = int (card visited)" by blast+
next
  assume r: "reaches (a_star_body maze end) ([(heuristic end start, 0, start, [start])], {}, 0)
          (heap, visited, n)"
  from a_star_reaches_expanded[OF r]
  show "visited = expanded_so_far (a_star_body maze end) (a_star_expands end)
                  ([(heuristic end start, 0, start, [start])], {}, 0) (heap, visited, n)"
    and "finite visited" and "n = int (card visited)" by blast+
next
  fix stack' visited' n'
  assume "dfs_body maze end (stack, visited, n) = Continue (stack', visited', n')"
  then show "(visited' = visited \<and> n' = n \<and> fst (last stack) \<in> visited)
          \<or> (visited' = insert (fst (last stack)) visited \<and> n' = n + 1
               \<and> fst (last stack) \<notin> visited)"
    by (rule dfs_step_visited)
next
  fix queue' visited' n'
  assume "bfs_body maze end (queue, visited, n) = Continue (queue', visited', n')"
  then show "(visited' = visited \<and> n' = n \<and> fst (hd queue) \<in> visited)
          \<or> (visited' = insert (fst (hd queue)) visited \<and> n' = n + 1
               \<and> fst (hd queue) \<notin> visited)"
    by (rule bfs_step_visited)
next
  fix heap' visited' n'
  assume "a_star_body maze end (heap, visited, n) = Continue (heap', visited', n')"
  then show "(visited' = visited \<and> n' = n \<and> fst (snd (snd (smallest heap))) \<in> visited)
          \<or> (visited' = insert (fst (snd (snd (smallest heap)))) visited \<and> n' = n + 1
               \<and> fst (snd (snd (smallest heap))) \<notin> visited)"
    by (rule a_star_step_visited)
qed

theorem visited_is_the_expanded_nodes_witness:
  "reaches (dfs_body [''#-#'', ''#-#'', ''#-#''] (2, 1)) ([((0, 1), [(0, 1)])], {}, 0)
     ([((1, 1), [(0, 1), (1, 1)]), ((- 1, 1), [(0, 1), (- 1, 1)])], {(0, 1)}, 1)
   \<and> {(0, 1)} = expanded_so_far (dfs_body [''#-#'', ''#-#'', ''#-#''] (2, 1)) (dfs_expands (2, 1))
       ([((0, 1), [(0, 1)])], {}, 0)
       ([((1, 1), [(0, 1), (1, 1)]), ((- 1, 1), [(0, 1), (- 1, 1)])], {(0, 1)}, 1)
   \<and> dfs_body [''#-#'', ''#-#'', ''#-#''] (2, 1)
       ([((1, 1), [(0, 1), (1, 1)]), ((- 1, 1), [(0, 1), (- 1, 1)])], {(0, 1)}, 1)
     = Continue ([((1, 1), [(0, 1), (1, 1)]), ((0, 1), [(0, 1), (- 1, 1), (0, 1)]),
                  ((- 2, 1), [(0, 1), (- 1, 1), (- 2, 1)])], {(- 1, 1), (0, 1)}, 2)
   \<and> reaches (bfs_body [''#-#'', ''#-#'', ''#-#''] (2, 1)) ([((0, 1), [(0, 1)])], {}, 0)
     ([((1, 1), [(0, 1), (1, 1)]), ((- 1, 1), [(0, 1), (- 1, 1)])], {(0, 1)}, 1)
   \<and> {(0, 1)} = expanded_so_far (bfs_body [''#-#'', ''#-#'', ''#-#''] (2, 1)) (bfs_expands (2, 1))
       ([((0, 1), [(0, 1)])], {}, 0)
       ([((1, 1), [(0, 1), (1, 1)]), ((- 1, 1), [(0, 1), (- 1, 1)])], {(0, 1)}, 1)
   \<and> bfs_body [''#-#'', ''#-#'', ''#-#''] (2, 1)
       ([((1, 1), [(0, 1), (1, 1)]), ((- 1, 1), [(0, 1), (- 1, 1)])], {(0, 1)}, 1)
     = Continue ([((- 1, 1), [(0, 1), (- 1, 1)]), ((2, 1), [(0, 1), (1, 1), (2, 1)])],
                 {(1, 1), (0, 1)}, 2)
   \<and> reaches (a_star_body [''#-#'', ''#-#'', ''#-#''] (2, 1))
       ([(heuristic (2, 1) (0, 1), 0, (0, 1), [(0, 1)])], {}, 0)
       ([(4, 1, (- 1, 1), [(0, 1), (- 1, 1)]), (2, 1, (1, 1), [(0, 1), (1, 1)])], {(0, 1)}, 1)
   \<and> {(0, 1)} = expanded_so_far (a_star_body [''#-#'', ''#-#'', ''#-#''] (2, 1)) (a_star_expands (2, 1))
       ([(heuristic (2, 1) (0, 1), 0, (0, 1), [(0, 1)])], {}, 0)
       ([(4, 1, (- 1, 1), [(0, 1), (- 1, 1)]), (2, 1, (1, 1), [(0, 1), (1, 1)])], {(0, 1)}, 1)
   \<and> a_star_body [''#-#'', ''#-#'', ''#-#''] (2, 1)
       ([(4, 1, (- 1, 1), [(0, 1), (- 1, 1)]), (2, 1, (1, 1), [(0, 1), (1, 1)])], {(0, 1)}, 1)
     = Continue ([(4, 1, (- 1, 1), [(0, 1), (- 1, 1)]), (4, 2, (0, 1), [(0, 1), (1, 1), (0, 1)]),
                  (2, 2, (2, 1), [(0, 1), (1, 1), (2, 1)])], {(1, 1), (0, 1)}, 2)
   \<and> (1 :: int) = int (card {(0 :: int, 1 :: int)})"
proof -
  let ?m = "[''#-#'', ''#-#'', ''#-#'']"
  let ?d1 = "([((1, 1), [(0, 1), (1, 1)]), ((- 1, 1), [(0, 1), (- 1, 1)])], {(0, 1)}, 1)
               :: dfs_state"
  let ?a0 = "([(heuristic (2, 1) (0, 1), 0, (0, 1), [(0, 1)])], {}, 0) :: a_star_state"
  let ?a1 = "([(4, 1, (- 1, 1), [(0, 1), (- 1, 1)]), (2, 1, (1, 1), [(0, 1), (1, 1)])], {(0, 1)}, 1)
               :: a_star_state"
  have r1: "reaches (dfs_body ?m (2, 1)) ([((0, 1), [(0, 1)])], {}, 0) ?d1"
    by (rule reaches_next[OF reaches_init]) (simp add: dfs_body_def cell_def py_index_def)
  have r2: "reaches (bfs_body ?m (2, 1)) ([((0, 1), [(0, 1)])], {}, 0) ?d1"
    by (rule reaches_next[OF reaches_init]) (simp add: bfs_body_def cell_def py_index_def)
  have r3: "reaches (a_star_body ?m (2, 1)) ?a0 ?a1"
    by (rule reaches_next[OF reaches_init])
      (simp add: a_star_body_def heappop_def heappush_def heuristic_def cell_def py_index_def)
  have s1: "dfs_body ?m (2, 1) ?d1
     = Continue ([((1, 1), [(0, 1), (1, 1)]), ((0, 1), [(0, 1), (- 1, 1), (0, 1)]),
                  ((- 2, 1), [(0, 1), (- 1, 1), (- 2, 1)])], {(- 1, 1), (0, 1)}, 2)"
    by (simp add: dfs_body_def cell_def py_index_def)
  have s2: "bfs_body ?m (2, 1) ?d1
     = Continue ([((- 1, 1), [(0, 1), (- 1, 1)]), ((2, 1), [(0, 1), (1, 1), (2, 1)])],
                 {(1, 1), (0, 1)}, 2)"
    by (simp add: bfs_body_def cell_def py_index_def)
  have s3: "a_star_body ?m (2, 1) ?a1
     = Continue ([(4, 1, (- 1, 1), [(0, 1), (- 1, 1)]), (4, 2, (0, 1), [(0, 1), (1, 1), (0, 1)]),
                  (2, 2, (2, 1), [(0, 1), (1, 1), (2, 1)])], {(1, 1), (0, 1)}, 2)"
    by (simp add: a_star_body_def heappop_def heappush_def heuristic_def cell_def py_index_def)
  note t = visited_is_the_expanded_nodes[of ?m "(2, 1)" "(0, 1)"
      "[((1, 1), [(0, 1), (1, 1)]), ((- 1, 1), [(0, 1), (- 1, 1)])]" "{(0, 1)}" 1
      "[((1, 1), [(0, 1), (1, 1)]), ((- 1, 1), [(0, 1), (- 1, 1)])]"
      "[(4, 1, (- 1, 1), [(0, 1), (- 1, 1)]), (2, 1, (1, 1), [(0, 1), (1, 1)])]"]
  note d1 = mp[OF conjunct1[OF t] r1]
  note d2 = mp[OF conjunct1[OF conjunct2[OF t]] r2]
  note d3 = mp[OF conjunct2[OF conjunct2[OF t]] r3]
  note e1 = conjunct1[OF d1]
  note e2 = conjunct1[OF d2]
  note e3 = conjunct1[OF d3]
  note c = conjunct1[OF conjunct2[OF conjunct2[OF d1]]]
  from r1 e1 s1 r2 e2 s2 r3 e3 s3 c show ?thesis by (intro conjI)
qed

section \<open>Start equal to end\<close>

text \<open>
  C10. When \<open>start = end\<close>, each of the three functions returns the one-element path
  \<open>[start]\<close>: the first entry taken from the frontier is \<open>start\<close>, the test
  \<open>node == end\<close> comes before anything else, and the count is still 0.
\<close>

theorem start_is_end_returns_start:
  "dfs_algorithm maze start start = Some (Inr ([start], 0)) \<and>
   bfs_algorithm maze start start = Some (Inr ([start], 0)) \<and>
   a_star_algorithm maze start start = Some (Inr ([start], 0))"
  by (simp add: dfs_algorithm_def bfs_algorithm_def a_star_algorithm_def run_loop_Stop
      dfs_body_def bfs_body_def a_star_body_def heappop_def)

theorem start_is_end_returns_start_witness:
  "dfs_algorithm [''#-#'', ''#-#''] (0, 1) (0, 1) = Some (Inr ([(0, 1)], 0)) \<and>
   bfs_algorithm [''#-#'', ''#-#''] (0, 1) (0, 1) = Some (Inr ([(0, 1)], 0)) \<and>
   a_star_algorithm [''#-#'', ''#-#''] (0, 1) (0, 1) = Some (Inr ([(0, 1)], 0))"
  using start_is_end_returns_start [of "[''#-#'', ''#-#'']" "(0, 1)"] by simp

end
